theory Spec2Isabelle
  imports Complex_Main "HOL-Library.Sublist"
begin

section \<open>Python strings\<close>

text \<open>
  A Python \<open>str\<close> is a sequence of Unicode code points, and \<open>len\<close> counts code points.
  A character is therefore modelled by its code point, a natural number, and a string by
  the list of its code points. \<open>py\<close> turns an ASCII literal into such a list.
\<close>

type_synonym pystr = "nat list"

definition py :: "string \<Rightarrow> pystr" where
  "py s = map of_char s"

text \<open>
  \<open>str.isspace\<close> on one character: the code points that CPython's Unicode database
  classifies as whitespace. \<open>str.strip()\<close> without argument removes exactly these.
\<close>

definition isspace :: "nat \<Rightarrow> bool" where
  "isspace c \<longleftrightarrow>
     (9 \<le> c \<and> c \<le> 13) \<or> (28 \<le> c \<and> c \<le> 32) \<or> c = 133 \<or> c = 160 \<or> c = 5760
     \<or> (8192 \<le> c \<and> c \<le> 8202) \<or> c = 8232 \<or> c = 8233 \<or> c = 8239 \<or> c = 8287
     \<or> c = 12288"

definition lstrip :: "pystr \<Rightarrow> pystr" where
  "lstrip s = dropWhile isspace s"

definition rstrip :: "pystr \<Rightarrow> pystr" where
  "rstrip s = rev (dropWhile isspace (rev s))"

definition strip :: "pystr \<Rightarrow> pystr" where
  "strip s = rstrip (lstrip s)"

definition startswith :: "pystr \<Rightarrow> pystr \<Rightarrow> bool" where
  "startswith s p \<longleftrightarrow> prefix p s"

definition endswith :: "pystr \<Rightarrow> pystr \<Rightarrow> bool" where
  "endswith s p \<longleftrightarrow> suffix p s"

text \<open>
  \<open>s.replace(old, new, 1)\<close>: the leftmost occurrence of \<open>old\<close> in \<open>s\<close> is replaced
  by \<open>new\<close>; a string without occurrence is returned as it is.
\<close>

fun replace1 :: "pystr \<Rightarrow> pystr \<Rightarrow> pystr \<Rightarrow> pystr" where
  "replace1 old new [] = (if old = [] then new else [])"
| "replace1 old new (c # cs) =
     (if prefix old (c # cs) then new @ drop (length old) (c # cs)
      else c # replace1 old new cs)"

section \<open>The per-line transform\<close>

text \<open>
  \<^verbatim>\<open>
  def uncomment_line(line):
      if line.strip().startswith("// "):
          return line.replace("// ", "", 1)
      if line.strip().startswith("//"):
          return line.replace("//", "", 1)
      return line
  \<close>
\<close>

definition uncomment_line :: "pystr \<Rightarrow> pystr" where
  "uncomment_line line =
     (if startswith (strip line) (py ''// '') then replace1 (py ''// '') (py '''') line
      else if startswith (strip line) (py ''//'') then replace1 (py ''//'') (py '''') line
      else line)"

text \<open>
  What the words "the first literal occurrence of \<open>old\<close> is removed" mean: the line
  splits into a part before the occurrence and a part after it, and no occurrence starts
  at an earlier position.
\<close>

definition occurs_at :: "pystr \<Rightarrow> pystr \<Rightarrow> nat \<Rightarrow> bool" where
  "occurs_at old s i \<longleftrightarrow> i \<le> length s \<and> prefix old (drop i s)"

definition first_occurrence_removed :: "pystr \<Rightarrow> pystr \<Rightarrow> pystr \<Rightarrow> bool" where
  "first_occurrence_removed old s r \<longleftrightarrow>
     (\<exists>pre post. s = pre @ old @ post \<and> r = pre @ post
        \<and> (\<forall>i. occurs_at old s i \<longrightarrow> length pre \<le> i))"

section \<open>Errors and floating-point division\<close>

datatype py_error = ZeroDivisionError | OverflowError | OSError

text \<open>
  A finite non-negative binary64 number is modelled by the rational it denotes.
  \<open>nearest_binary64 q\<close> is the IEEE 754 round-to-nearest, ties-to-even, image of a
  non-negative rational \<open>q\<close>: with \<open>e = \<lfloor>log\<^sub>2 q\<rfloor>\<close> the spacing of the format around
  \<open>q\<close> is \<open>2\<^sup>e\<^sup>-\<^sup>5\<^sup>2\<close> (53 significant bits) and never below \<open>2\<^sup>-\<^sup>1\<^sup>0\<^sup>7\<^sup>4\<close> (subnormal
  numbers), and \<open>q\<close> goes to the nearest multiple of the spacing.
\<close>

fun bit_length :: "nat \<Rightarrow> nat" where
  "bit_length n = (if n = 0 then 0 else Suc (bit_length (n div 2)))"

declare bit_length.simps [simp del]

definition floor_log2 :: "rat \<Rightarrow> int" where
  "floor_log2 q =
     (let (n, d) = quotient_of q;
          e = int (bit_length (nat n)) - int (bit_length (nat d))
      in if 2 powi e \<le> q then e else e - 1)"

definition round_half_even :: "rat \<Rightarrow> int" where
  "round_half_even x =
     (let f = \<lfloor>x\<rfloor>; d = x - of_int f
      in if d < 1 / 2 then f else if 1 / 2 < d then f + 1
         else if even f then f else f + 1)"

definition nearest_binary64 :: "rat \<Rightarrow> rat" where
  "nearest_binary64 q =
     (if q = 0 then 0
      else let u = 2 powi (max (floor_log2 q - 52) (- 1074))
           in of_int (round_half_even (q / u)) * u)"

text \<open>
  \<open>a / b\<close> on two non-negative Python ints (here always two \<open>len\<close> results): the
  correctly rounded binary64 quotient, \<open>ZeroDivisionError\<close> for a zero divisor and
  \<open>OverflowError\<close> when the quotient is too large for a float.
\<close>

definition truediv :: "nat \<Rightarrow> nat \<Rightarrow> py_error + rat" where
  "truediv a b =
     (if b = 0 then Inl ZeroDivisionError
      else let r = nearest_binary64 (of_nat a / of_nat b)
           in if 2 ^ 1024 \<le> r then Inl OverflowError else Inr r)"

text \<open>The float literal \<open>0.95\<close>: the binary64 number nearest to 95/100.\<close>

definition literal_0_95 :: rat where
  "literal_0_95 = nearest_binary64 (95 / 100)"

section \<open>The classifier\<close>

text \<open>
  \<^verbatim>\<open>
  def is_fully_commented(lines):
      non_empty = [l for l in lines if l.strip()]
      if not non_empty:
          return False
      commented = [l for l in non_empty if l.strip().startswith("//")]
      return len(commented) / len(non_empty) > 0.95
  \<close>
\<close>

definition non_empty :: "pystr list \<Rightarrow> pystr list" where
  "non_empty lines = filter (\<lambda>l. strip l \<noteq> []) lines"

definition commented :: "pystr list \<Rightarrow> pystr list" where
  "commented lines = filter (\<lambda>l. startswith (strip l) (py ''//'')) (non_empty lines)"

definition is_fully_commented :: "pystr list \<Rightarrow> py_error + bool" where
  "is_fully_commented lines =
     (if non_empty lines = [] then Inr False
      else case truediv (length (commented lines)) (length (non_empty lines)) of
             Inl e \<Rightarrow> Inl e
           | Inr r \<Rightarrow> Inr (literal_0_95 < r))"

section \<open>Files, the console and the walk\<close>

text \<open>
  A file is opened in text mode: on reading, \<open>\r\n\<close> and a lone \<open>\r\<close> become \<open>\n\<close>
  (universal newlines), and \<open>readlines\<close> cuts the text after every \<open>\n\<close>.
  \<open>writelines\<close> writes the strings one after the other.
\<close>

fun universal_newlines :: "pystr \<Rightarrow> pystr" where
  "universal_newlines [] = []"
| "universal_newlines [c] = (if c = 13 then [10] else [c])"
| "universal_newlines (c # d # cs) =
     (if c = 13 then (if d = 10 then 10 # universal_newlines cs
                      else 10 # universal_newlines (d # cs))
      else c # universal_newlines (d # cs))"

fun split_lines :: "pystr \<Rightarrow> pystr list" where
  "split_lines [] = []"
| "split_lines (c # cs) =
     (if c = 10 then [c] # split_lines cs
      else (case split_lines cs of [] \<Rightarrow> [[c]] | l # ls \<Rightarrow> (c # l) # ls))"

definition readlines :: "pystr \<Rightarrow> pystr list" where
  "readlines content = split_lines (universal_newlines content)"

definition writelines :: "pystr list \<Rightarrow> pystr" where
  "writelines ls = concat ls"

text \<open>\<open>os.path.join(root, file)\<close> on a POSIX system.\<close>

definition path_join :: "pystr \<Rightarrow> pystr \<Rightarrow> pystr" where
  "path_join a b =
     (if startswith b (py ''/'') then b
      else if a = [] \<or> endswith a (py ''/'') then a @ b
      else a @ py ''/'' @ b)"

text \<open>\<open>str(count)\<close>: the decimal digits of a non-negative int.\<close>

fun str_nat :: "nat \<Rightarrow> pystr" where
  "str_nat n = (if n < 10 then [48 + n] else str_nat (n div 10) @ [48 + n mod 10])"

declare str_nat.simps [simp del]

text \<open>
  The state of a run: the decoded text of every readable file by path, the events the run
  has caused so far, in order (every \<open>open\<close> with its mode, and every \<open>print\<close> with the line
  it prints), and the global \<open>count\<close>. Opening a path that has no text (a file that is
  missing, unreadable or not decodable) raises an exception, here \<open>OSError\<close>, which ends
  the run; writing to a path that was just read succeeds.
\<close>

datatype event = OpenRead pystr | OpenWrite pystr | Print pystr

record state =
  files :: "pystr \<rightharpoonup> pystr"
  trace :: "event list"
  count :: nat

text \<open>
  The body of the inner loop, for one \<open>file\<close> of one \<open>root\<close>:
  \<^verbatim>\<open>
  if file.endswith(".tsx") or file.endswith(".ts"):
      path = os.path.join(root, file)
      with open(path, "r") as f:
          lines = f.readlines()
      if is_fully_commented(lines):
          print(f"Uncommenting: {path}")
          new_lines = [uncomment_line(line) for line in lines]
          with open(path, "w") as f:
              f.writelines(new_lines)
          count += 1
  \<close>
\<close>

definition is_target :: "pystr \<Rightarrow> bool" where
  "is_target file \<longleftrightarrow> endswith file (py ''.tsx'') \<or> endswith file (py ''.ts'')"

definition new_lines :: "pystr list \<Rightarrow> pystr list" where
  "new_lines lines = map uncomment_line lines"

definition process_file :: "pystr \<Rightarrow> pystr \<Rightarrow> state \<Rightarrow> py_error + state" where
  "process_file root_dir file st =
     (if is_target file then
        (let path = path_join root_dir file in
         case files st path of
           None \<Rightarrow> Inl OSError
         | Some content \<Rightarrow>
             (let lines = readlines content;
                  st1 = st\<lparr>trace := trace st @ [OpenRead path]\<rparr>
              in case is_fully_commented lines of
                   Inl e \<Rightarrow> Inl e
                 | Inr False \<Rightarrow> Inr st1
                 | Inr True \<Rightarrow>
                     Inr (st1\<lparr>trace := trace st1 @ [Print (py ''Uncommenting: '' @ path),
                                                        OpenWrite path],
                              files := (files st1)(path \<mapsto> writelines (new_lines lines)),
                              count := count st1 + 1\<rparr>)))
      else Inr st)"

text \<open>
  \<open>os.walk(TARGET_DIR)\<close> yields one triple \<open>(root, dirs, files)\<close> per directory of the
  tree; the sequence it yields is a parameter of the model. The two nested \<open>for\<close> loops,
  and the whole script, which starts with \<open>count = 0\<close> and ends with
  \<open>print(f"Total files uncommented: {count}")\<close>.
\<close>

fun for_files :: "pystr \<Rightarrow> pystr list \<Rightarrow> state \<Rightarrow> py_error + state" where
  "for_files root_dir [] st = Inr st"
| "for_files root_dir (file # rest) st =
     (case process_file root_dir file st of
        Inl e \<Rightarrow> Inl e
      | Inr st' \<Rightarrow> for_files root_dir rest st')"

fun for_walk :: "(pystr \<times> pystr list \<times> pystr list) list \<Rightarrow> state \<Rightarrow> py_error + state" where
  "for_walk [] st = Inr st"
| "for_walk ((root_dir, dirs, fs) # rest) st =
     (case for_files root_dir fs st of
        Inl e \<Rightarrow> Inl e
      | Inr st' \<Rightarrow> for_walk rest st')"

definition main :: "(pystr \<times> pystr list \<times> pystr list) list \<Rightarrow> (pystr \<rightharpoonup> pystr) \<Rightarrow> py_error + state" where
  "main walk fs =
     (case for_walk walk \<lparr>files = fs, trace = [], count = 0\<rparr> of
        Inl e \<Rightarrow> Inl e
      | Inr st \<Rightarrow>
          Inr (st\<lparr>trace := trace st @
                     [Print (py ''Total files uncommented: '' @ str_nat (count st))]\<rparr>))"

section \<open>Notions used to state the properties of a run\<close>

text \<open>
  The files of a walk in the order in which the two loops visit them, each with its
  directory, and the loop over that flat sequence.
\<close>

definition entries :: "(pystr \<times> pystr list \<times> pystr list) list \<Rightarrow> (pystr \<times> pystr) list" where
  "entries walk = concat (map (\<lambda>(root_dir, dirs, fs). map (Pair root_dir) fs) walk)"

fun for_entries :: "(pystr \<times> pystr) list \<Rightarrow> state \<Rightarrow> py_error + state" where
  "for_entries [] st = Inr st"
| "for_entries ((root_dir, file) # rest) st =
     (case process_file root_dir file st of
        Inl e \<Rightarrow> Inl e
      | Inr st' \<Rightarrow> for_entries rest st')"

definition path_of :: "pystr \<times> pystr \<Rightarrow> pystr" where
  "path_of e = path_join (fst e) (snd e)"

definition target_paths :: "(pystr \<times> pystr) list \<Rightarrow> pystr list" where
  "target_paths es = map path_of (filter (\<lambda>e. is_target (snd e)) es)"

text \<open>
  A qualifying file: one with a target extension whose lines the classifier accepts.
  \<open>rewrite_text\<close> is what the script writes back for a text it accepts, and
  \<open>file_events\<close> the events that the loop body causes for one file.
\<close>

definition qualifies_text :: "pystr \<Rightarrow> bool" where
  "qualifies_text content \<longleftrightarrow> is_fully_commented (readlines content) = Inr True"

definition qualifies :: "(pystr \<rightharpoonup> pystr) \<Rightarrow> pystr \<times> pystr \<Rightarrow> bool" where
  "qualifies fs e \<longleftrightarrow>
     is_target (snd e) \<and>
     (case fs (path_of e) of None \<Rightarrow> False | Some content \<Rightarrow> qualifies_text content)"

definition rewrite_text :: "pystr \<Rightarrow> pystr" where
  "rewrite_text content = writelines (new_lines (readlines content))"

definition file_events :: "(pystr \<rightharpoonup> pystr) \<Rightarrow> pystr \<times> pystr \<Rightarrow> event list" where
  "file_events fs e =
     (if is_target (snd e) then
        OpenRead (path_of e) #
        (if qualifies fs e
         then [Print (py ''Uncommenting: '' @ path_of e), OpenWrite (path_of e)] else [])
      else [])"

definition is_write :: "event \<Rightarrow> bool" where
  "is_write ev = (case ev of OpenWrite p \<Rightarrow> True | _ \<Rightarrow> False)"

definition is_summary :: "event \<Rightarrow> bool" where
  "is_summary ev =
     (case ev of Print s \<Rightarrow> startswith s (py ''Total files uncommented: '') | _ \<Rightarrow> False)"

definition blank :: "pystr list \<Rightarrow> bool" where
  "blank lines \<longleftrightarrow> list_all (\<lambda>l. strip l = []) lines"

text \<open>
  Two files of the boundary case: 19, respectively 20, commented lines followed by one
  line of code.
\<close>

definition scenario_19_of_20 :: pystr where
  "scenario_19_of_20 = concat (replicate 19 (py ''// const x = 1'' @ [10])) @ py ''const y = 2;'' @ [10]"

definition scenario_20_of_21 :: pystr where
  "scenario_20_of_21 = concat (replicate 20 (py ''// const x = 1'' @ [10])) @ py ''const y = 2;'' @ [10]"

text \<open>
  A small tree for the examples: two directories, three files with a target extension
  (two of them entirely commented) and one file with another extension.
\<close>

definition example_walk :: "(pystr \<times> pystr list \<times> pystr list) list" where
  "example_walk =
     [(py ''src'', [py ''sub''], [py ''a.ts'', py ''b.tsx'', py ''d.js'']),
      (py ''src/sub'', [], [py ''c.ts''])]"

definition example_files :: "pystr \<rightharpoonup> pystr" where
  "example_files =
     [py ''src/a.ts'' \<mapsto> py ''// x'' @ [10],
      py ''src/b.tsx'' \<mapsto> py ''y'' @ [10],
      py ''src/d.js'' \<mapsto> py ''// w'' @ [10],
      py ''src/sub/c.ts'' \<mapsto> py ''//z'' @ [10]]"

definition example_result :: state where
  "example_result =
     \<lparr>files = example_files(py ''src/a.ts'' \<mapsto> py ''x'' @ [10],
                            py ''src/sub/c.ts'' \<mapsto> py ''z'' @ [10]),
      trace = [OpenRead (py ''src/a.ts''), Print (py ''Uncommenting: src/a.ts''),
               OpenWrite (py ''src/a.ts''),
               OpenRead (py ''src/b.tsx''),
               OpenRead (py ''src/sub/c.ts''), Print (py ''Uncommenting: src/sub/c.ts''),
               OpenWrite (py ''src/sub/c.ts''),
               Print (py ''Total files uncommented: 2'')],
      count = 2\<rparr>"

text \<open>
  A file whose only line carries the marker twice, before the loop body has seen it,
  after one pass and after two.
\<close>

definition nested_start :: state where
  "nested_start = \<lparr>files = [py ''src/a.ts'' \<mapsto> py ''// // x'' @ [10]], trace = [], count = 0\<rparr>"

definition nested_once :: state where
  "nested_once =
     \<lparr>files = [py ''src/a.ts'' \<mapsto> py ''// x'' @ [10]],
      trace = [OpenRead (py ''src/a.ts''), Print (py ''Uncommenting: src/a.ts''),
               OpenWrite (py ''src/a.ts'')],
      count = 1\<rparr>"

definition nested_twice :: state where
  "nested_twice =
     \<lparr>files = [py ''src/a.ts'' \<mapsto> py ''x'' @ [10]],
      trace = [OpenRead (py ''src/a.ts''), Print (py ''Uncommenting: src/a.ts''),
               OpenWrite (py ''src/a.ts''),
               OpenRead (py ''src/a.ts''), Print (py ''Uncommenting: src/a.ts''),
               OpenWrite (py ''src/a.ts'')],
      count = 2\<rparr>"

section \<open>Lemmas\<close>

subsection \<open>Binary64 rounding and the comparison with 0.95\<close>

text \<open>
  The exponent found by \<open>floor_log2\<close> brackets the number, rounding to the nearest integer
  respects integer bounds, and so, for a quotient \<open>c / n\<close> with \<open>c \<le> n < 2\<^sup>5\<^sup>2\<close>, the rounded
  quotient exceeds the rounded constant exactly when the exact quotient exceeds 19/20.
  Beyond that size the two can differ (\<open>binary64_ratio_saturates\<close>).
\<close>

lemma bit_length_bounds: "0 < n \<Longrightarrow> 2 ^ (bit_length n - 1) \<le> n \<and> n < 2 ^ bit_length n"
proof (induction n rule: bit_length.induct)
  case (1 n)
  show ?case
  proof (cases "n div 2 = 0")
    case True
    with 1 have n1: "n = Suc 0" by auto
    have "bit_length (Suc 0) = Suc 0"
      by (simp add: bit_length.simps[of "Suc 0"] bit_length.simps[of 0])
    then show ?thesis using n1 by simp
  next
    case False
    with 1 have IH: "2 ^ (bit_length (n div 2) - 1) \<le> n div 2" "n div 2 < 2 ^ bit_length (n div 2)"
      by auto
    have bl: "bit_length n = Suc (bit_length (n div 2))" using 1(2) by (simp add: bit_length.simps[of n])
    have pos: "0 < bit_length (n div 2)" using False by (simp add: bit_length.simps[of "n div 2"])
    then obtain k where k: "bit_length (n div 2) = Suc k" by (cases "bit_length (n div 2)") auto
    from IH k have "2 * 2 ^ k \<le> n" "n < 2 * 2 ^ Suc k" by auto
    then show ?thesis using bl k by simp
  qed
qed

lemma bit_length_pos: "0 < n \<Longrightarrow> 0 < bit_length n"
  by (simp add: bit_length.simps[of n])

lemma bit_length_rat:
  assumes "0 < a"
  shows "(2::rat) powi (int (bit_length a) - 1) \<le> of_nat a"
    and "(of_nat a :: rat) < 2 powi (int (bit_length a))"
proof -
  from bit_length_pos[OF assms] obtain k where k: "bit_length a = Suc k"
    by (cases "bit_length a") auto
  from bit_length_bounds[OF assms] k have A: "2 ^ k \<le> a" "a < 2 ^ Suc k" by auto
  have "(of_nat (2 ^ k) :: rat) \<le> of_nat a" using A(1) of_nat_le_iff by blast
  then have "(2::rat) ^ k \<le> of_nat a" by simp
  moreover have "int (bit_length a) - 1 = int k" using k by simp
  ultimately show "(2::rat) powi (int (bit_length a) - 1) \<le> of_nat a" by simp
  have "(of_nat a :: rat) < of_nat (2 ^ Suc k)" using A(2) of_nat_less_iff by blast
  then have "(of_nat a :: rat) < 2 ^ Suc k" by simp
  then show "(of_nat a :: rat) < 2 powi (int (bit_length a))" unfolding k power_int_of_nat .
qed

lemma floor_log2_bounds:
  assumes "0 < q"
  shows "2 powi (floor_log2 q) \<le> q" and "q < 2 powi (floor_log2 q + 1)"
proof -
  obtain n d where nd: "quotient_of q = (n, d)" by (cases "quotient_of q")
  have q: "q = of_int n / of_int d" using quotient_of_div[OF nd] .
  have d: "0 < d" using quotient_of_denom_pos[OF nd] .
  have n: "0 < n" using assms d unfolding q by (simp add: zero_less_divide_iff)
  define a where "a = nat n"
  define b where "b = nat d"
  have ab: "0 < a" "0 < b" using n d by (auto simp: a_def b_def)
  have qab: "q = of_nat a / of_nat b" using n d unfolding q a_def b_def by simp
  define e where "e = int (bit_length a) - int (bit_length b)"
  note ra = bit_length_rat[OF ab(1)]
  note rb = bit_length_rat[OF ab(2)]
  have bpos: "(0::rat) < of_nat b" using ab by simp
  have p2: "(0::rat) \<le> 2 powi k" for k by simp
  have up: "q < 2 powi (e + 1)"
  proof -
    have "(2::rat) powi (e + 1) * 2 powi (int (bit_length b) - 1) = 2 powi (int (bit_length a))"
      unfolding e_def by (subst power_int_add[symmetric]) auto
    then have "of_nat a < (2::rat) powi (e + 1) * 2 powi (int (bit_length b) - 1)"
      using ra(2) by simp
    also have "\<dots> \<le> 2 powi (e + 1) * of_nat b"
      by (rule mult_left_mono[OF rb(1) p2])
    finally show ?thesis using bpos unfolding qab by (simp add: pos_divide_less_eq)
  qed
  have lo: "2 powi (e - 1) \<le> q"
  proof -
    have eq: "(2::rat) powi (e - 1) * 2 powi (int (bit_length b)) = 2 powi (int (bit_length a) - 1)"
      unfolding e_def by (subst power_int_add[symmetric]) auto
    have "(2::rat) powi (e - 1) * of_nat b \<le> 2 powi (e - 1) * 2 powi (int (bit_length b))"
      by (rule mult_left_mono[OF less_imp_le[OF rb(2)] p2])
    also have "\<dots> \<le> of_nat a" unfolding eq by (rule ra(1))
    finally show ?thesis using bpos unfolding qab by (simp add: pos_le_divide_eq)
  qed
  have fl: "floor_log2 q = (if 2 powi e \<le> q then e else e - 1)"
    unfolding floor_log2_def nd e_def a_def b_def by (simp add: Let_def)
  show "2 powi (floor_log2 q) \<le> q" using lo unfolding fl by simp
  show "q < 2 powi (floor_log2 q + 1)" using up unfolding fl by (simp add: not_le)
qed

lemma floor_log2_less:
  assumes "0 < q" "q < 2 powi k"
  shows "floor_log2 q < k"
proof (rule ccontr)
  assume "\<not> floor_log2 q < k"
  then have "k \<le> floor_log2 q" by simp
  then have "(2::rat) powi k \<le> 2 powi (floor_log2 q)" by (intro power_int_increasing) auto
  with floor_log2_bounds(1)[OF assms(1)] assms(2) show False by simp
qed

lemma floor_log2_ge:
  assumes "0 < q" "2 powi k \<le> q"
  shows "k \<le> floor_log2 q"
proof (rule ccontr)
  assume "\<not> k \<le> floor_log2 q"
  then have "floor_log2 q + 1 \<le> k" by simp
  then have "(2::rat) powi (floor_log2 q + 1) \<le> 2 powi k" by (intro power_int_increasing) auto
  with floor_log2_bounds(2)[OF assms(1)] assms(2) show False by simp
qed

lemma round_half_even_le:
  assumes "x \<le> of_int N" shows "round_half_even x \<le> N"
proof (cases "x = of_int N")
  case True
  then show ?thesis by (simp add: round_half_even_def)
next
  case False
  with assms have "x < of_int N" by simp
  then have "\<lfloor>x\<rfloor> < N" by (simp add: floor_less_iff)
  then show ?thesis by (auto simp: round_half_even_def Let_def)
qed

lemma round_half_even_ge:
  assumes "of_int N \<le> x" shows "N \<le> round_half_even x"
proof -
  have "N \<le> \<lfloor>x\<rfloor>" using assms by (simp add: le_floor_iff)
  then show ?thesis by (auto simp: round_half_even_def Let_def)
qed

lemma round_half_even_below_half:
  assumes "x < of_int N + 1 / 2" shows "round_half_even x \<le> N"
proof (cases "x \<le> of_int N")
  case True then show ?thesis by (rule round_half_even_le)
next
  case False
  then have "of_int N \<le> x" "x < of_int N + 1" using assms by auto
  then have "\<lfloor>x\<rfloor> = N" by (simp add: floor_unique)
  then show ?thesis using assms by (auto simp: round_half_even_def Let_def)
qed

lemma round_half_even_above_half:
  assumes "of_int N + 1 / 2 < x" shows "N + 1 \<le> round_half_even x"
proof (cases "of_int (N + 1) \<le> x")
  case True then show ?thesis by (rule round_half_even_ge)
next
  case False
  then have "of_int N \<le> x" "x < of_int N + 1" using assms by auto
  then have "\<lfloor>x\<rfloor> = N" by (simp add: floor_unique)
  then show ?thesis using assms by (auto simp: round_half_even_def Let_def)
qed

lemma round_half_even_of_int: "round_half_even (of_int N) = N"
  by (simp add: round_half_even_def)

lemma nearest_binary64_le:
  assumes "0 < q" "q \<le> 2 powi k" "- 1022 \<le> k"
  shows "nearest_binary64 q \<le> 2 powi k"
proof -
  define m where "m = max (floor_log2 q - 52) (- 1074)"
  have "floor_log2 q < k + 1"
    by (rule floor_log2_less[OF assms(1)])
       (rule le_less_trans[OF assms(2)], rule power_int_strict_increasing, auto)
  then have mk: "m \<le> k" using assms(3) by (simp add: m_def)
  define j where "j = nat (k - m)"
  have kj: "k = m + int j" using mk by (simp add: j_def)
  have upos: "(0::rat) < 2 powi m" by simp
  have split: "(2::rat) powi k = 2 ^ j * 2 powi m"
    unfolding kj by (simp add: power_int_add)
  have "q / 2 powi m \<le> of_int (2 ^ j)"
    using assms(2) upos unfolding split by (simp add: pos_divide_le_eq)
  then have "round_half_even (q / 2 powi m) \<le> 2 ^ j" by (rule round_half_even_le)
  then have "(of_int (round_half_even (q / 2 powi m)) :: rat) \<le> of_int (2 ^ j)"
    using of_int_le_iff by blast
  then have "of_int (round_half_even (q / 2 powi m)) * 2 powi m \<le> (2::rat) ^ j * 2 powi m"
    using upos by (simp add: mult_right_mono)
  then show ?thesis using assms(1) unfolding split nearest_binary64_def m_def
    by (simp add: Let_def)
qed

lemma nearest_binary64_one: "nearest_binary64 1 = 1"
proof -
  have "floor_log2 1 < 1" by (rule floor_log2_less) simp_all
  moreover have "0 \<le> floor_log2 1" by (rule floor_log2_ge) simp_all
  ultimately have e: "floor_log2 1 = 0" by simp
  have "(1::rat) / 2 powi (- 52) = of_int (2 ^ 52)" by (simp add: power_int_minus)
  then have "round_half_even (1 / 2 powi (- 52)) = 2 ^ 52"
    using round_half_even_of_int[of "2 ^ 52"] by simp
  then show ?thesis unfolding nearest_binary64_def e by (simp add: power_int_minus)
qed

lemma literal_0_95_value: "literal_0_95 = 8556839292003942 / 2 ^ 53"
  by code_simp

lemma nearest_binary64_upper_binade:
  assumes "1 / 2 \<le> q" "q < 1"
  shows "nearest_binary64 q = of_int (round_half_even (q * 2 ^ 53)) / 2 ^ 53"
proof -
  have q0: "0 < q" using assms by simp
  have "q < 2 powi 0" using assms by simp
  from floor_log2_less[OF q0 this] have 1: "floor_log2 q < 0" .
  have "(2::rat) powi (- 1) = 1 / 2" by (simp add: power_int_minus)
  then have "2 powi (- 1) \<le> q" using assms by simp
  from floor_log2_ge[OF q0 this] have 2: "- 1 \<le> floor_log2 q" .
  from 1 2 have e: "floor_log2 q = - 1" by simp
  have m: "max (floor_log2 q - 52) (- 1074) = - 53" unfolding e by simp
  define P :: rat where "P = 2 ^ 53"
  have u: "(2::rat) powi (- 53) = inverse P" unfolding P_def by (simp only: power_int_minus power_int_numeral)
  have nz: "q \<noteq> 0" using q0 by simp
  have "nearest_binary64 q = of_int (round_half_even (q / inverse P)) * inverse P"
    unfolding nearest_binary64_def Let_def m u using nz by (simp only: if_False)
  also have "\<dots> = of_int (round_half_even (q * P)) / P"
    by (simp only: divide_inverse inverse_inverse_eq)
  finally show ?thesis unfolding P_def .
qed

lemma truediv_fraction:
  assumes "0 < n" "c \<le> n"
  shows "truediv c n = Inr (nearest_binary64 (of_nat c / of_nat n))"
proof -
  define q :: rat where "q = of_nat c / of_nat n"
  have q1: "0 \<le> q" "q \<le> 1" using assms by (simp_all add: q_def divide_le_eq)
  have "nearest_binary64 q \<le> 1"
  proof (cases "q = 0")
    case True then show ?thesis by (simp add: nearest_binary64_def)
  next
    case False
    with q1 have "0 < q" "q \<le> 2 powi 0" by simp_all
    from nearest_binary64_le[OF this] show ?thesis by simp
  qed
  moreover have "(1::rat) < 2 ^ 1024" by (rule one_less_power) simp_all
  ultimately have "\<not> 2 ^ 1024 \<le> nearest_binary64 q" by simp
  then show ?thesis using assms(1) unfolding truediv_def q_def Let_def by simp
qed

lemma truediv_zero: "truediv c 0 = Inl ZeroDivisionError"
  by (simp add: truediv_def)

lemma nearest_binary64_gt_literal:
  assumes n: "0 < n" "n < 2 ^ 52" and cn: "c \<le> n"
  shows "literal_0_95 < nearest_binary64 (of_nat c / of_nat n) \<longleftrightarrow> 19 * n < 20 * c"
proof -
  define C :: rat where "C = of_nat c"
  define N :: rat where "N = of_nat n"
  define q where "q = C / N"
  have N0: "0 < N" using n by (simp add: N_def)
  have "(of_nat n :: rat) < of_nat (2 ^ 52)" using n(2) of_nat_less_iff by blast
  then have Nb: "N < 4503599627370496" by (simp add: N_def)
  have CN: "0 \<le> C" "C \<le> N" using cn by (simp_all add: C_def N_def)
  have L: "literal_0_95 = 8556839292003942 / 9007199254740992"
    unfolding literal_0_95_value by simp
  have iff: "19 * n < 20 * c \<longleftrightarrow> 19 * N < 20 * C"
  proof -
    have "19 * N < 20 * C \<longleftrightarrow> (of_nat (19 * n) :: rat) < of_nat (20 * c)"
      by (simp add: C_def N_def)
    also have "\<dots> \<longleftrightarrow> 19 * n < 20 * c" by (rule of_nat_less_iff)
    finally show ?thesis by simp
  qed
  have step: "19 * n < 20 * c \<Longrightarrow> 19 * N + 1 \<le> 20 * C"
  proof -
    assume "19 * n < 20 * c"
    then have "19 * n + 1 \<le> 20 * c" by simp
    then have "(of_nat (19 * n + 1) :: rat) \<le> of_nat (20 * c)" using of_nat_le_iff by blast
    then show ?thesis by (simp add: C_def N_def)
  qed
  consider (one) "C = N" | (hi) "C < N" "N \<le> 2 * C" | (lo) "2 * C < N"
    using CN by linarith
  then have "literal_0_95 < nearest_binary64 q \<longleftrightarrow> 19 * N < 20 * C"
  proof cases
    case one
    then have "q = 1" using N0 by (simp add: q_def)
    then show ?thesis using one N0 by (simp add: nearest_binary64_one L)
  next
    case hi
    have qr: "1 / 2 \<le> q" "q < 1" using hi N0 by (simp_all add: q_def pos_le_divide_eq)
    have nb: "nearest_binary64 q = of_int (round_half_even (q * 9007199254740992)) / 9007199254740992"
      using nearest_binary64_upper_binade[OF qr] by simp
    show ?thesis
    proof (cases "19 * N < 20 * C")
      case True
      have "19 * N + 1 \<le> 20 * C" using True step iff by simp
      then have "8556839292003942 * N + N / 2 < 9007199254740992 * C"
        using Nb by linarith
      then have "(8556839292003942 + 1 / 2) * N < C * 9007199254740992"
        by (simp add: algebra_simps)
      then have "of_int 8556839292003942 + 1 / 2 < q * 9007199254740992"
        using N0 by (simp add: q_def pos_less_divide_eq)
      from round_half_even_above_half[OF this]
      have "(of_int (8556839292003942 + 1) :: rat) \<le> of_int (round_half_even (q * 9007199254740992))"
        using of_int_le_iff by blast
      then have "(8556839292003943 :: rat) \<le> of_int (round_half_even (q * 9007199254740992))"
        by simp
      then have "literal_0_95 < nearest_binary64 q" unfolding nb L
        by (simp add: divide_less_cancel)
      then show ?thesis using True by simp
    next
      case False
      then have "20 * C \<le> 19 * N" by simp
      then have "9007199254740992 * C < 8556839292003942 * N + N / 2"
        using N0 by linarith
      then have "C * 9007199254740992 < (8556839292003942 + 1 / 2) * N"
        by (simp add: algebra_simps)
      then have "q * 9007199254740992 < of_int 8556839292003942 + 1 / 2"
        using N0 by (simp add: q_def pos_divide_less_eq)
      from round_half_even_below_half[OF this]
      have "(of_int (round_half_even (q * 9007199254740992)) :: rat) \<le> of_int 8556839292003942"
        using of_int_le_iff by blast
      then have "nearest_binary64 q \<le> literal_0_95" unfolding nb L
        by (simp add: divide_le_cancel)
      then show ?thesis using False by simp
    qed
  next
    case lo
    have no: "\<not> 19 * N < 20 * C" using lo CN by linarith
    have "nearest_binary64 q \<le> 1 / 2"
    proof (cases "q = 0")
      case True then show ?thesis by (simp add: nearest_binary64_def)
    next
      case False
      have "0 \<le> q" using CN N0 by (simp add: q_def)
      with False have q0: "0 < q" by simp
      have "q \<le> 1 / 2" using lo N0 by (simp add: q_def pos_divide_le_eq)
      then have "q \<le> 2 powi (- 1)" by (simp add: power_int_minus)
      from nearest_binary64_le[OF q0 this] show ?thesis by (simp add: power_int_minus)
    qed
    then have "\<not> literal_0_95 < nearest_binary64 q" unfolding L by simp
    then show ?thesis using no by simp
  qed
  then show ?thesis unfolding iff q_def C_def N_def .
qed

lemma ratio_exact:
  assumes "0 < n"
  shows "95 / 100 < (of_nat c :: rat) / of_nat n \<longleftrightarrow> 19 * n < 20 * c"
proof -
  have n0: "(0::rat) < of_nat n" using assms by simp
  have "95 / 100 < (of_nat c :: rat) / of_nat n \<longleftrightarrow> (95 / 100) * of_nat n < (of_nat c :: rat)"
    using n0 by (simp only: pos_less_divide_eq)
  also have "\<dots> \<longleftrightarrow> 19 * (of_nat n :: rat) < 20 * of_nat c" by linarith
  also have "\<dots> \<longleftrightarrow> (of_nat (19 * n) :: rat) < of_nat (20 * c)" by simp
  also have "\<dots> \<longleftrightarrow> 19 * n < 20 * c" by (rule of_nat_less_iff)
  finally show ?thesis .
qed

lemma binary64_ratio_saturates:
  "19 * (200000000000000000::nat) < 20 * 190000000000000001"
  "truediv 190000000000000001 200000000000000000 = Inr literal_0_95"
proof -
  show "19 * (200000000000000000::nat) < 20 * 190000000000000001" by simp
  define q :: rat where "q = of_nat 190000000000000001 / of_nat 200000000000000000"
  have qv: "q = 190000000000000001 / 200000000000000000" by (simp add: q_def)
  have t: "truediv 190000000000000001 200000000000000000 = Inr (nearest_binary64 q)"
    unfolding q_def by (rule truediv_fraction) simp_all
  have r: "1 / 2 \<le> q" "q < 1" unfolding qv by simp_all
  have x: "q * 2 ^ 53 < of_int 8556839292003942 + 1 / 2" "of_int 8556839292003942 \<le> q * 2 ^ 53"
    unfolding qv by simp_all
  have "round_half_even (q * 2 ^ 53) = 8556839292003942"
    using round_half_even_below_half[OF x(1)] round_half_even_ge[OF x(2)] by simp
  then have "nearest_binary64 q = literal_0_95"
    unfolding nearest_binary64_upper_binade[OF r] literal_0_95_value by simp
  then show "truediv 190000000000000001 200000000000000000 = Inr literal_0_95"
    using t by simp
qed

subsection \<open>Stripping and replacing\<close>

text \<open>
  A stripped line that starts with \<open>p\<close> comes from a raw line made of whitespace, then \<open>p\<close>;
  \<open>replace1\<close> with an empty replacement deletes exactly the leftmost occurrence.
\<close>

lemma not_isspace_slash: "\<not> isspace 47"
  by (simp add: isspace_def)

lemma rstrip_prefix: "prefix (rstrip s) s"
proof -
  have "rev s = takeWhile isspace (rev s) @ dropWhile isspace (rev s)" by simp
  then have "s = rev (dropWhile isspace (rev s)) @ rev (takeWhile isspace (rev s))"
    by (metis rev_append rev_rev_ident)
  then show ?thesis unfolding rstrip_def by (metis prefixI)
qed

lemma strip_startswith_split:
  assumes "startswith (strip l) p"
  shows "\<exists>rest. l = takeWhile isspace l @ p @ rest"
proof -
  have "prefix p (rstrip (lstrip l))" using assms by (simp add: startswith_def strip_def)
  then have "prefix p (lstrip l)" using rstrip_prefix prefix_order.order_trans by blast
  then obtain rest where "dropWhile isspace l = p @ rest" by (auto simp: prefix_def lstrip_def)
  then have "l = takeWhile isspace l @ p @ rest" by (metis takeWhile_dropWhile_id)
  then show ?thesis ..
qed

lemma py_nonempty: "py ''// '' \<noteq> []" "py ''//'' \<noteq> []"
  by (simp_all add: py_def)

lemma strip_startswith_occurs:
  assumes "startswith (strip l) p"
  shows "occurs_at p l (length (takeWhile isspace l))"
proof -
  from strip_startswith_split[OF assms] obtain rest where
    l: "l = takeWhile isspace l @ p @ rest" ..
  have "drop (length (takeWhile isspace l)) l = p @ rest"
    by (subst (2) l) simp
  moreover have "length (takeWhile isspace l) \<le> length l" by (rule length_takeWhile_le)
  ultimately show ?thesis by (simp add: occurs_at_def)
qed

lemma rstrip_append_nonblank:
  assumes "\<not> list_all isspace rest"
  shows "rstrip (s @ rest) = s @ rstrip rest"
proof -
  from assms obtain x where "x \<in> set (rev rest)" "\<not> isspace x" by (auto simp: list_all_iff)
  then have "dropWhile isspace (rev rest @ rev s) = dropWhile isspace (rev rest) @ rev s"
    by (rule dropWhile_append1)
  then show ?thesis by (simp add: rstrip_def)
qed

lemma strip_spaces_marker:
  assumes "list_all isspace ws" "\<not> list_all isspace rest"
  shows "strip (ws @ py ''// '' @ rest) = py ''// '' @ rstrip rest"
proof -
  have "dropWhile isspace (ws @ py ''// '' @ rest) = dropWhile isspace (py ''// '' @ rest)"
    using assms(1) by (simp add: dropWhile_append2 list_all_iff)
  also have "\<dots> = py ''// '' @ rest" by (simp add: py_def isspace_def)
  finally have "lstrip (ws @ py ''// '' @ rest) = py ''// '' @ rest" by (simp add: lstrip_def)
  then show ?thesis by (simp add: strip_def rstrip_append_nonblank[OF assms(2)])
qed

lemma length_replace1: "length (replace1 old [] s) \<le> length s"
  by (induction s) auto

lemma replace1_occurs_length:
  "prefix old (drop i s) \<Longrightarrow> i \<le> length s \<Longrightarrow> length (replace1 old [] s) + length old = length s"
proof (induction s arbitrary: i)
  case Nil
  then show ?case by simp
next
  case (Cons c cs)
  show ?case
  proof (cases "prefix old (c # cs)")
    case True
    then have "length old \<le> length (c # cs)" by (rule prefix_length_le)
    then show ?thesis using True by simp
  next
    case False
    with Cons.prems obtain j where "i = Suc j" by (cases i) auto
    with Cons.prems have "prefix old (drop j cs)" "j \<le> length cs" by auto
    from Cons.IH[OF this] show ?thesis using False by simp
  qed
qed

lemma replace1_split_length:
  "length (replace1 old [] (pre @ old @ post)) + length old = length (pre @ old @ post)"
  by (rule replace1_occurs_length[where i = "length pre"]) simp_all

lemma replace1_at_head:
  assumes "old \<noteq> []"
  shows "replace1 old [] (old @ post) = post"
proof -
  from assms obtain c cs where eq: "old @ post = c # cs" by (cases old) auto
  have p: "prefix old (c # cs)" unfolding eq[symmetric] by simp
  have "replace1 old [] (c # cs) = drop (length old) (c # cs)" using p by simp
  then show ?thesis unfolding eq[symmetric] by simp
qed

lemma replace1_first:
  "old \<noteq> [] \<Longrightarrow> occurs_at old s k \<Longrightarrow> first_occurrence_removed old s (replace1 old [] s)"
proof (induction s arbitrary: k)
  case Nil
  then show ?case by (simp add: occurs_at_def)
next
  case (Cons c cs)
  show ?case
  proof (cases "prefix old (c # cs)")
    case True
    then obtain post where eq: "c # cs = old @ post" by (auto simp: prefix_def)
    show ?thesis unfolding first_occurrence_removed_def eq
      by (intro exI[of _ "[]"] exI[of _ post])
         (simp add: replace1_at_head[OF Cons.prems(1)])
  next
    case False
    with Cons.prems obtain k' where k: "k = Suc k'" "occurs_at old cs k'"
      by (cases k) (auto simp: occurs_at_def)
    from Cons.IH[OF Cons.prems(1) k(2)] obtain pre post where
      pp: "cs = pre @ old @ post" "replace1 old [] cs = pre @ post"
          "\<forall>i. occurs_at old cs i \<longrightarrow> length pre \<le> i"
      unfolding first_occurrence_removed_def by blast
    have "\<forall>i. occurs_at old (c # cs) i \<longrightarrow> length (c # pre) \<le> i"
    proof (intro allI impI)
      fix i assume a: "occurs_at old (c # cs) i"
      with False obtain i' where "i = Suc i'" "occurs_at old cs i'"
        by (cases i) (auto simp: occurs_at_def)
      with pp(3) show "length (c # pre) \<le> i" by simp
    qed
    with pp(1,2) False show ?thesis unfolding first_occurrence_removed_def
      by (intro exI[of _ "c # pre"] exI[of _ post]) simp
  qed
qed

lemma replace1_after_spaces:
  assumes "\<forall>c\<in>set ws. isspace c" "old \<noteq> []" "\<not> isspace (hd old)"
  shows "replace1 old [] (ws @ old @ rest) = ws @ rest"
  using assms(1)
proof (induction ws)
  case Nil
  show ?case by (simp add: replace1_at_head[OF assms(2)])
next
  case (Cons w ws)
  have "\<not> prefix old ((w # ws) @ old @ rest)"
  proof
    assume "prefix old ((w # ws) @ old @ rest)"
    then have "hd old = w" using assms(2) by (cases old) auto
    with Cons.prems assms(3) show False by simp
  qed
  then show ?case using Cons by simp
qed

lemma subseq_replace1: "subseq (replace1 old [] s) s"
proof (induction s)
  case Nil
  then show ?case by simp
next
  case (Cons c cs)
  have "suffix (drop (length old) (c # cs)) (c # cs)" by (rule suffix_drop)
  then have "subseq (drop (length old) (c # cs)) (c # cs)" by (rule suffix_imp_subseq)
  then show ?case using Cons by simp
qed

lemma replace1_at_most: "length s \<le> length (replace1 old [] s) + length old"
  by (induction s) auto


lemmas line_eval =
  uncomment_line_def py_def strip_def lstrip_def rstrip_def startswith_def isspace_def

subsection \<open>The per-line transform\<close>

text \<open>
  The transform never lengthens a line, shortens every line it takes for commented, keeps
  the newline characters, and removes the marker that follows the leading whitespace.
\<close>

lemma uncomment_line_length: "length (uncomment_line l) \<le> length l"
  by (simp add: uncomment_line_def length_replace1 py_def)

lemma uncomment_line_shrinks:
  assumes "startswith (strip l) (py ''//'')"
  shows "length (uncomment_line l) < length l"
proof (cases "startswith (strip l) (py ''// '')")
  case True
  from strip_startswith_split[OF True] obtain rest where
    l: "l = takeWhile isspace l @ py ''// '' @ rest" ..
  have "length (replace1 (py ''// '') [] l) + length (py ''// '') = length l"
    by (subst (1 2) l) (rule replace1_split_length)
  then show ?thesis using True by (simp add: uncomment_line_def py_def)
next
  case False
  from strip_startswith_split[OF assms] obtain rest where
    l: "l = takeWhile isspace l @ py ''//'' @ rest" ..
  have "length (replace1 (py ''//'') [] l) + length (py ''//'') = length l"
    by (subst (1 2) l) (rule replace1_split_length)
  then show ?thesis using False assms by (simp add: uncomment_line_def py_def)
qed


lemma uncomment_line_anchored:
  "startswith (strip line) (py ''// '') \<Longrightarrow>
     uncomment_line line = takeWhile isspace line @ drop 3 (dropWhile isspace line)"
  "\<not> startswith (strip line) (py ''// '') \<Longrightarrow> startswith (strip line) (py ''//'') \<Longrightarrow>
     uncomment_line line = takeWhile isspace line @ drop 2 (dropWhile isspace line)"
proof -
  have ws: "\<forall>c\<in>set (takeWhile isspace line). isspace c" by (auto dest: set_takeWhileD)
  have h: "\<not> isspace (hd (py ''// ''))" "\<not> isspace (hd (py ''//''))"
    by (simp_all add: py_def isspace_def)
  {
    assume a: "startswith (strip line) (py ''// '')"
    from strip_startswith_split[OF a] obtain rest where
      l: "line = takeWhile isspace line @ py ''// '' @ rest" ..
    then have d: "dropWhile isspace line = py ''// '' @ rest"
      by (metis same_append_eq takeWhile_dropWhile_id)
    have "replace1 (py ''// '') [] line = takeWhile isspace line @ rest"
      by (subst l) (rule replace1_after_spaces[OF ws py_nonempty(1) h(1)])
    then show "uncomment_line line = takeWhile isspace line @ drop 3 (dropWhile isspace line)"
      using a unfolding d by (simp add: uncomment_line_def py_def)
  }
  {
    assume a: "\<not> startswith (strip line) (py ''// '')" and b: "startswith (strip line) (py ''//'')"
    from strip_startswith_split[OF b] obtain rest where
      l: "line = takeWhile isspace line @ py ''//'' @ rest" ..
    then have d: "dropWhile isspace line = py ''//'' @ rest"
      by (metis same_append_eq takeWhile_dropWhile_id)
    have "replace1 (py ''//'') [] line = takeWhile isspace line @ rest"
      by (subst l) (rule replace1_after_spaces[OF ws py_nonempty(2) h(2)])
    then show "uncomment_line line = takeWhile isspace line @ drop 2 (dropWhile isspace line)"
      using a b unfolding d by (simp add: uncomment_line_def py_def)
  }
qed

subsection \<open>The classifier\<close>

text \<open>
  The classifier always returns a truth value; its answer in terms of the two counts.
\<close>

lemma commented_le: "length (commented lines) \<le> length (non_empty lines)"
  unfolding commented_def by (rule length_filter_le)

lemma is_fully_commented_total: "\<exists>b. is_fully_commented lines = Inr b"
proof (cases "non_empty lines = []")
  case True then show ?thesis by (auto simp: is_fully_commented_def)
next
  case False
  then have "0 < length (non_empty lines)" by simp
  from truediv_fraction[OF this commented_le] show ?thesis
    using False by (auto simp: is_fully_commented_def)
qed

lemma is_fully_commented_no_error: "is_fully_commented ls \<noteq> Inl e"
  using is_fully_commented_total[of ls] by auto

lemma is_fully_commented_binary64:
  "is_fully_commented lines =
     Inr (non_empty lines \<noteq> [] \<and>
          literal_0_95 < nearest_binary64 (of_nat (length (commented lines)) /
                                           of_nat (length (non_empty lines))))"
proof (cases "non_empty lines = []")
  case True
  then show ?thesis by (simp add: is_fully_commented_def)
next
  case False
  then have "0 < length (non_empty lines)" by simp
  from truediv_fraction[OF this commented_le] show ?thesis
    using False by (simp add: is_fully_commented_def)
qed

lemma is_fully_commented_exact:
  assumes "length (non_empty lines) < 2 ^ 52"
  shows "is_fully_commented lines =
           Inr (non_empty lines \<noteq> [] \<and> 19 * length (non_empty lines) < 20 * length (commented lines))"
proof (cases "non_empty lines = []")
  case True then show ?thesis by (simp add: is_fully_commented_def)
next
  case False
  then have pos: "0 < length (non_empty lines)" by simp
  show ?thesis
    using False truediv_fraction[OF pos commented_le]
      nearest_binary64_gt_literal[OF pos assms commented_le]
    by (simp add: is_fully_commented_def)
qed

lemma is_fully_commented_ratio:
  assumes "length (non_empty lines) < 2 ^ 52"
  shows "is_fully_commented lines =
           Inr (non_empty lines \<noteq> [] \<and>
                95 / 100 < (of_nat (length (commented lines)) :: rat) / of_nat (length (non_empty lines)))"
proof (cases "non_empty lines = []")
  case True
  then show ?thesis by (simp add: is_fully_commented_def)
next
  case False
  then have "0 < length (non_empty lines)" by simp
  from ratio_exact[OF this] show ?thesis
    using False by (simp only: is_fully_commented_exact[OF assms] simp_thms)
qed

lemma qualifies_has_commented:
  assumes "is_fully_commented lines = Inr True"
  shows "commented lines \<noteq> []"
proof
  assume c: "commented lines = []"
  have ne: "non_empty lines \<noteq> []" using assms by (auto simp: is_fully_commented_def)
  then have pos: "0 < length (non_empty lines)" by simp
  have "truediv 0 (length (non_empty lines)) = Inr 0"
    using truediv_fraction[OF pos, of 0] by (simp add: nearest_binary64_def)
  moreover have "\<not> literal_0_95 < 0" unfolding literal_0_95_value by simp
  ultimately show False using assms ne c by (simp add: is_fully_commented_def)
qed

lemma blank_non_empty: "blank lines \<Longrightarrow> non_empty lines = []"
  by (simp add: blank_def non_empty_def list_all_iff)

subsection \<open>Reading and writing lines\<close>

text \<open>
  Reading cuts the text without losing a character, and rewriting a text that qualifies
  makes it strictly shorter.
\<close>

lemma universal_newlines_id: "13 \<notin> set s \<Longrightarrow> universal_newlines s = s"
  by (induction s rule: universal_newlines.induct) auto

lemma length_universal_newlines: "length (universal_newlines s) \<le> length s"
  by (induction s rule: universal_newlines.induct) auto

lemma split_lines_line: "10 \<notin> set l \<Longrightarrow> split_lines (l @ 10 # rest) = (l @ [10]) # split_lines rest"
  by (induction l) auto

lemma split_lines_last: "10 \<notin> set l \<Longrightarrow> l \<noteq> [] \<Longrightarrow> split_lines l = [l]"
proof (induction l)
  case Nil
  then show ?case by simp
next
  case (Cons c l)
  then show ?case by (cases l) auto
qed

lemma split_lines_replicate:
  "10 \<notin> set l \<Longrightarrow>
   split_lines (concat (replicate n (l @ [10])) @ rest) = replicate n (l @ [10]) @ split_lines rest"
  by (induction n) (simp_all add: split_lines_line)

lemma concat_split_lines: "concat (split_lines s) = s"
  by (induction s) (auto split: list.splits)

lemma readlines_one: "10 \<notin> set l \<Longrightarrow> 13 \<notin> set l \<Longrightarrow> readlines (l @ [10]) = [l @ [10]]"
  using split_lines_line[of l "[]"] by (simp add: readlines_def universal_newlines_id)

lemma length_concat_map_le:
  assumes "\<And>l. length (f l) \<le> length l"
  shows "length (concat (map f ls)) \<le> length (concat ls)"
  by (induction ls) (simp_all add: add_mono assms)

lemma length_concat_map_less:
  assumes "\<And>l. length (f l) \<le> length l" "x \<in> set ls" "length (f x) < length x"
  shows "length (concat (map f ls)) < length (concat ls)"
  using assms(2)
proof (induction ls)
  case Nil
  then show ?case by simp
next
  case (Cons l ls)
  show ?case
  proof (cases "x = l")
    case True
    then show ?thesis using assms(3) length_concat_map_le[of f ls, OF assms(1)] by simp
  next
    case False
    with Cons have "length (concat (map f ls)) < length (concat ls)" by simp
    then show ?thesis using assms(1)[of l] by simp
  qed
qed


lemma rewrite_text_one: "10 \<notin> set l \<Longrightarrow> 13 \<notin> set l \<Longrightarrow> rewrite_text (l @ [10]) = uncomment_line (l @ [10])"
  by (simp add: rewrite_text_def readlines_one new_lines_def writelines_def)

lemma rewrite_text_shorter:
  assumes "qualifies_text content"
  shows "length (rewrite_text content) < length content"
proof -
  from assms have "commented (readlines content) \<noteq> []"
    unfolding qualifies_text_def by (rule qualifies_has_commented)
  then obtain l where l: "l \<in> set (readlines content)" "startswith (strip l) (py ''//'')"
    unfolding commented_def non_empty_def by (auto simp: filter_empty_conv)
  have "length (concat (map uncomment_line (readlines content))) < length (concat (readlines content))"
    by (rule length_concat_map_less[OF uncomment_line_length l(1) uncomment_line_shrinks[OF l(2)]])
  also have "concat (readlines content) = universal_newlines content"
    by (simp add: readlines_def concat_split_lines)
  finally show ?thesis using length_universal_newlines[of content]
    by (simp add: rewrite_text_def new_lines_def writelines_def)
qed

subsection \<open>The loop body\<close>

text \<open>
  The four outcomes of the loop body, and its effect on counter, output and files.
\<close>

lemma process_file_non_target: "\<not> is_target file \<Longrightarrow> process_file r file st = Inr st"
  by (simp add: process_file_def)

lemma process_file_unreadable:
  "is_target file \<Longrightarrow> files st (path_join r file) = None \<Longrightarrow> process_file r file st = Inl OSError"
  by (simp add: process_file_def)

lemma process_file_skip:
  assumes "is_target file" "files st (path_join r file) = Some c" "\<not> qualifies_text c"
  shows "process_file r file st = Inr (st\<lparr>trace := trace st @ [OpenRead (path_join r file)]\<rparr>)"
proof -
  from is_fully_commented_total[of "readlines c"] assms(3)
  have "is_fully_commented (readlines c) = Inr False" by (auto simp: qualifies_text_def)
  then show ?thesis using assms(1,2) by (simp add: process_file_def)
qed

lemma process_file_rewrite:
  assumes "is_target file" "files st (path_join r file) = Some c" "qualifies_text c"
  shows "process_file r file st =
     Inr (st\<lparr>trace := trace st @ [OpenRead (path_join r file),
                                 Print (py ''Uncommenting: '' @ path_join r file),
                                 OpenWrite (path_join r file)],
            files := (files st)(path_join r file \<mapsto> rewrite_text c),
            count := count st + 1\<rparr>)"
  using assms by (simp add: process_file_def qualifies_text_def rewrite_text_def Let_def)

lemma process_file_effect:
  assumes "process_file r f st = Inr st'"
  shows "count st' = count st + (if qualifies (files st) (r, f) then 1 else 0)"
    and "trace st' = trace st @ file_events (files st) (r, f)"
    and "files st' = (if qualifies (files st) (r, f)
                      then (files st)(path_of (r, f) := map_option rewrite_text (files st (path_of (r, f))))
                      else files st)"
proof -
  have all: "count st' = count st + (if qualifies (files st) (r, f) then 1 else 0) \<and>
    trace st' = trace st @ file_events (files st) (r, f) \<and>
    files st' = (if qualifies (files st) (r, f)
                      then (files st)(path_of (r, f) := map_option rewrite_text (files st (path_of (r, f))))
                      else files st)"
  proof (cases "is_target f")
    case False
    with assms have "st' = st" by (simp add: process_file_non_target)
    then show ?thesis using False by (simp add: qualifies_def file_events_def)
  next
    case True
    show ?thesis
    proof (cases "files st (path_join r f)")
      case None
      with True assms show ?thesis by (simp add: process_file_unreadable)
    next
      case (Some c)
      show ?thesis
      proof (cases "qualifies_text c")
        case q: True
        have "st' = st\<lparr>trace := trace st @ [OpenRead (path_join r f),
                                 Print (py ''Uncommenting: '' @ path_join r f),
                                 OpenWrite (path_join r f)],
            files := (files st)(path_join r f \<mapsto> rewrite_text c),
            count := count st + 1\<rparr>"
          using assms process_file_rewrite[OF True Some q] by simp
        then show ?thesis using True Some q
          by (simp add: qualifies_def file_events_def path_of_def)
      next
        case q: False
        have "st' = st\<lparr>trace := trace st @ [OpenRead (path_join r f)]\<rparr>"
          using assms process_file_skip[OF True Some q] by simp
        then show ?thesis using True Some q
          by (simp add: qualifies_def file_events_def path_of_def)
      qed
    qed
  qed
  show "count st' = count st + (if qualifies (files st) (r, f) then 1 else 0)" using all by blast
  show "trace st' = trace st @ file_events (files st) (r, f)" using all by blast
  show "files st' = (if qualifies (files st) (r, f)
                      then (files st)(path_of (r, f) := map_option rewrite_text (files st (path_of (r, f))))
                      else files st)" using all by blast
qed

lemma process_file_completes:
  assumes "is_target f \<longrightarrow> files st (path_join r f) \<noteq> None"
  shows "\<exists>st'. process_file r f st = Inr st'"
proof (cases "is_target f")
  case False
  then show ?thesis by (simp add: process_file_non_target)
next
  case True
  with assms obtain c where c: "files st (path_join r f) = Some c" by auto
  show ?thesis
  proof (cases "qualifies_text c")
    case True
    from process_file_rewrite[OF \<open>is_target f\<close> c True] show ?thesis by blast
  next
    case False
    from process_file_skip[OF \<open>is_target f\<close> c False] show ?thesis by blast
  qed
qed

lemma process_file_keeps_readable:
  assumes "process_file r f st = Inr st'" "files st p \<noteq> None"
  shows "files st' p \<noteq> None"
  using process_file_effect(3)[OF assms(1)] assms(2) by (auto split: if_splits)

subsection \<open>A whole run\<close>

text \<open>
  The nested loops visit the entries of the walk in order; the effect of a run over
  distinct paths, what a run leaves alone, and when it ends normally.
\<close>

lemma for_entries_append:
  "for_entries (es1 @ es2) st =
     (case for_entries es1 st of Inl e \<Rightarrow> Inl e | Inr st' \<Rightarrow> for_entries es2 st')"
  by (induction es1 arbitrary: st) (auto split: sum.splits)

lemma for_files_entries: "for_files r fs st = for_entries (map (Pair r) fs) st"
  by (induction fs arbitrary: st) (auto split: sum.splits)

lemma for_walk_entries: "for_walk walk st = for_entries (entries walk) st"
proof (induction walk arbitrary: st)
  case Nil
  then show ?case by (simp add: entries_def)
next
  case (Cons w walk)
  obtain r ds fs where w: "w = (r, ds, fs)" by (cases w)
  have e: "entries ((r, ds, fs) # walk) = map (Pair r) fs @ entries walk"
    by (simp add: entries_def)
  show ?case unfolding w e for_entries_append
    by (simp add: for_files_entries Cons.IH split: sum.splits)
qed

lemma qualifies_cong: "fs1 (path_of e) = fs2 (path_of e) \<Longrightarrow> qualifies fs1 e = qualifies fs2 e"
  by (simp add: qualifies_def)

lemma file_events_cong: "fs1 (path_of e) = fs2 (path_of e) \<Longrightarrow> file_events fs1 e = file_events fs2 e"
  by (simp add: file_events_def qualifies_cong[of fs1 e fs2])

lemma qualifies_target: "qualifies fs e \<Longrightarrow> is_target (snd e)"
  by (simp add: qualifies_def)

lemma target_path_mem: "e \<in> set es \<Longrightarrow> is_target (snd e) \<Longrightarrow> path_of e \<in> set (target_paths es)"
  by (auto simp: target_paths_def)

lemma for_entries_effect:
  assumes "for_entries es st = Inr st'" "distinct (target_paths es)"
  shows "count st' = count st + length (filter (qualifies (files st)) es)
       \<and> trace st' = trace st @ concat (map (file_events (files st)) es)
       \<and> (\<forall>p. files st' p =
            (if p \<in> path_of ` {e \<in> set es. qualifies (files st) e}
             then map_option rewrite_text (files st p) else files st p))"
  using assms
proof (induction es arbitrary: st)
  case Nil
  then show ?case by simp
next
  case (Cons e es)
  obtain r f where e: "e = (r, f)" by (cases e)
  from Cons.prems(1) obtain st1 where
    s1: "process_file r f st = Inr st1" and s2: "for_entries es st1 = Inr st'"
    by (auto simp: e split: sum.splits)
  note eff = process_file_effect[OF s1]
  have d: "distinct (target_paths es)" using Cons.prems(2)
    by (auto simp: target_paths_def split: if_splits)
  have fresh: "is_target f \<Longrightarrow> path_of (r, f) \<notin> set (target_paths es)"
    using Cons.prems(2) by (auto simp: target_paths_def e)
  have same: "files st1 (path_of x) = files st (path_of x)" if "x \<in> set es" "is_target (snd x)" for x
  proof (cases "qualifies (files st) (r, f)")
    case True
    then have "is_target f" using qualifies_target by fastforce
    with fresh target_path_mem[OF that] have "path_of x \<noteq> path_of (r, f)" by auto
    then show ?thesis using eff(3) True by simp
  next
    case False then show ?thesis using eff(3) by simp
  qed
  have q: "qualifies (files st1) x = qualifies (files st) x" if "x \<in> set es" for x
  proof (cases "is_target (snd x)")
    case True from same[OF that True] show ?thesis by (rule qualifies_cong)
  next
    case False then show ?thesis by (simp add: qualifies_def)
  qed
  have ev: "file_events (files st1) x = file_events (files st) x" if "x \<in> set es" for x
  proof (cases "is_target (snd x)")
    case True from same[OF that True] show ?thesis by (rule file_events_cong)
  next
    case False then show ?thesis by (simp add: file_events_def)
  qed
  have fq: "filter (qualifies (files st1)) es = filter (qualifies (files st)) es"
    by (rule filter_cong) (simp_all add: q)
  have me: "map (file_events (files st1)) es = map (file_events (files st)) es"
    by (rule map_cong) (simp_all add: ev)
  have Q: "{x \<in> set es. qualifies (files st1) x} = {x \<in> set es. qualifies (files st) x}"
    using q by auto
  from Cons.IH[OF s2 d] have
    ih1: "count st' = count st1 + length (filter (qualifies (files st)) es)" and
    ih2: "trace st' = trace st1 @ concat (map (file_events (files st)) es)" and
    ih3: "\<And>p. files st' p =
            (if p \<in> path_of ` {x \<in> set es. qualifies (files st) x}
             then map_option rewrite_text (files st1 p) else files st1 p)"
    unfolding fq me Q by auto
  have c: "count st' = count st + length (filter (qualifies (files st)) (e # es))"
    using ih1 eff(1) by (simp add: e)
  have t: "trace st' = trace st @ concat (map (file_events (files st)) (e # es))"
    using ih2 eff(2) by (simp add: e)
  have f: "files st' p =
            (if p \<in> path_of ` {x \<in> set (e # es). qualifies (files st) x}
             then map_option rewrite_text (files st p) else files st p)" for p
  proof (cases "qualifies (files st) (r, f)")
    case False
    then have "{x \<in> set (e # es). qualifies (files st) x} = {x \<in> set es. qualifies (files st) x}"
      by (auto simp: e)
    then show ?thesis using ih3[of p] eff(3) False by simp
  next
    case True
    then have tf: "is_target f" using qualifies_target by fastforce
    have S: "path_of ` {x \<in> set (e # es). qualifies (files st) x}
             = insert (path_of (r, f)) (path_of ` {x \<in> set es. qualifies (files st) x})"
      using True by (auto simp: e)
    have notin: "path_of (r, f) \<notin> path_of ` {x \<in> set es. qualifies (files st) x}"
    proof
      assume "path_of (r, f) \<in> path_of ` {x \<in> set es. qualifies (files st) x}"
      then obtain x where "x \<in> set es" "qualifies (files st) x" "path_of x = path_of (r, f)" by auto
      with target_path_mem[of x es] qualifies_target[of "files st" x] fresh[OF tf]
      show False by auto
    qed
    show ?thesis
    proof (cases "p = path_of (r, f)")
      case True
      then show ?thesis using ih3[of p] eff(3) \<open>qualifies (files st) (r, f)\<close> notin
        unfolding S by simp
    next
      case False
      then show ?thesis using ih3[of p] eff(3) \<open>qualifies (files st) (r, f)\<close>
        unfolding S by simp
    qed
  qed
  show ?case using c t f by blast
qed

lemma file_events_paths:
  "ev \<in> set (file_events fs e) \<Longrightarrow>
     is_target (snd e) \<and> (ev = OpenRead (path_of e) \<or> ev = OpenWrite (path_of e)
                        \<or> ev = Print (py ''Uncommenting: '' @ path_of e))"
  by (auto simp: file_events_def split: if_splits)

lemma for_entries_frame:
  assumes "for_entries es st = Inr st'"
    and "\<forall>e\<in>set es. path_of e = p \<longrightarrow> \<not> is_target (snd e)"
  shows "files st' p = files st p
       \<and> (OpenRead p \<in> set (trace st') \<longleftrightarrow> OpenRead p \<in> set (trace st))
       \<and> (OpenWrite p \<in> set (trace st') \<longleftrightarrow> OpenWrite p \<in> set (trace st))"
  using assms
proof (induction es arbitrary: st)
  case Nil
  then show ?case by simp
next
  case (Cons e es)
  obtain r f where e: "e = (r, f)" by (cases e)
  from Cons.prems(1) obtain st1 where
    s1: "process_file r f st = Inr st1" and s2: "for_entries es st1 = Inr st'"
    by (auto simp: e split: sum.splits)
  note eff = process_file_effect[OF s1]
  have np: "is_target f \<Longrightarrow> path_of (r, f) \<noteq> p" using Cons.prems(2) by (auto simp: e)
  have f1: "files st1 p = files st p"
  proof (cases "qualifies (files st) (r, f)")
    case True
    then have "is_target f" using qualifies_target by fastforce
    with np have "path_of (r, f) \<noteq> p" by simp
    then show ?thesis using eff(3) True by simp
  next
    case False
    then show ?thesis using eff(3) by simp
  qed
  have ev: "OpenRead p \<notin> set (file_events (files st) (r, f))"
           "OpenWrite p \<notin> set (file_events (files st) (r, f))"
    using np file_events_paths[of _ "files st" "(r, f)"] by auto
  have t1: "OpenRead p \<in> set (trace st1) \<longleftrightarrow> OpenRead p \<in> set (trace st)"
           "OpenWrite p \<in> set (trace st1) \<longleftrightarrow> OpenWrite p \<in> set (trace st)"
    using eff(2) ev by auto
  from Cons.IH[OF s2] Cons.prems(2) f1 t1 show ?case by simp
qed

lemma main_eq:
  assumes "main walk fs = Inr st'"
  obtains st0 where "for_entries (entries walk) \<lparr>files = fs, trace = [], count = 0\<rparr> = Inr st0"
    and "st' = st0\<lparr>trace := trace st0 @
                     [Print (py ''Total files uncommented: '' @ str_nat (count st0))]\<rparr>"
  using assms unfolding main_def for_walk_entries by (auto split: sum.splits)

lemma count_write_events:
  "count_list (concat (map (file_events fs) es)) (OpenWrite p)
     = length (filter (\<lambda>e. qualifies fs e \<and> path_of e = p) es)"
  by (induction es) (auto simp: file_events_def qualifies_def)

lemma count_print_events:
  "count_list (concat (map (file_events fs) es)) (Print (py ''Uncommenting: '' @ p))
     = length (filter (\<lambda>e. qualifies fs e \<and> path_of e = p) es)"
  by (induction es) (auto simp: file_events_def qualifies_def)

lemma write_events_total:
  "length (filter is_write (concat (map (file_events fs) es))) = length (filter (qualifies fs) es)"
  by (induction es) (auto simp: file_events_def qualifies_def is_write_def)

lemma no_summary_events:
  "filter is_summary (concat (map (file_events fs) es)) = []"
  by (induction es) (auto simp: file_events_def is_summary_def startswith_def py_def)

lemma unique_qualifying:
  assumes "distinct (target_paths es)" "e \<in> set es" "qualifies fs e"
  shows "length (filter (\<lambda>x. qualifies fs x \<and> path_of x = path_of e) es) = 1"
  using assms(1,2)
proof (induction es)
  case Nil
  then show ?case by simp
next
  case (Cons x es)
  have d: "distinct (target_paths es)" using Cons.prems(1)
    by (auto simp: target_paths_def split: if_splits)
  show ?case
  proof (cases "qualifies fs x \<and> path_of x = path_of e")
    case True
    then have tx: "is_target (snd x)" using qualifies_target by blast
    then have fresh: "path_of x \<notin> set (target_paths es)"
      using Cons.prems(1) by (auto simp: target_paths_def)
    have "filter (\<lambda>y. qualifies fs y \<and> path_of y = path_of e) es = []"
    proof (rule ccontr)
      assume "filter (\<lambda>y. qualifies fs y \<and> path_of y = path_of e) es \<noteq> []"
      then obtain y where y: "y \<in> set es" "qualifies fs y" "path_of y = path_of e"
        by (auto simp: filter_empty_conv)
      from target_path_mem[OF y(1) qualifies_target[OF y(2)]] y(3) True fresh
      show False by simp
    qed
    then show ?thesis using True by simp
  next
    case False
    with assms(3) have "e \<noteq> x" by auto
    with Cons.prems(2) have "e \<in> set es" by simp
    from Cons.IH[OF d this] show ?thesis using False by simp
  qed
qed

lemma for_entries_completes:
  assumes "\<forall>e\<in>set es. is_target (snd e) \<longrightarrow> files st (path_of e) \<noteq> None"
  shows "\<exists>st'. for_entries es st = Inr st'"
  using assms
proof (induction es arbitrary: st)
  case Nil
  then show ?case by simp
next
  case (Cons e es)
  obtain r f where e: "e = (r, f)" by (cases e)
  have "is_target f \<longrightarrow> files st (path_join r f) \<noteq> None"
    using Cons.prems by (simp add: e path_of_def)
  from process_file_completes[OF this] obtain st1 where s1: "process_file r f st = Inr st1" ..
  have "\<forall>x\<in>set es. is_target (snd x) \<longrightarrow> files st1 (path_of x) \<noteq> None"
    using Cons.prems process_file_keeps_readable[OF s1] by simp
  from Cons.IH[OF this] show ?case by (simp add: e s1)
qed

lemma main_completes:
  assumes "\<forall>e\<in>set (entries walk). is_target (snd e) \<longrightarrow> fs (path_of e) \<noteq> None"
  shows "\<exists>st. main walk fs = Inr st"
proof -
  have "\<exists>st'. for_entries (entries walk) \<lparr>files = fs, trace = [], count = 0\<rparr> = Inr st'"
    by (rule for_entries_completes) (use assms in simp)
  then show ?thesis unfolding main_def for_walk_entries by auto
qed

subsection \<open>The example files\<close>

text \<open>
  The classifier and the rewrite evaluated on the example files.
\<close>

lemma scenario_lines:
  "strip (py ''// const x = 1'' @ [10]) \<noteq> []"
  "strip (py ''const y = 2;'' @ [10]) \<noteq> []"
  "startswith (strip (py ''// const x = 1'' @ [10])) (py ''//'')"
  "\<not> startswith (strip (py ''const y = 2;'' @ [10])) (py ''//'')"
  "uncomment_line (py ''// const x = 1'' @ [10]) = py ''const x = 1'' @ [10]"
  "uncomment_line (py ''const y = 2;'' @ [10]) = py ''const y = 2;'' @ [10]"
  by (simp_all add: line_eval)

lemma readlines_scenario:
  "readlines (concat (replicate n (py ''// const x = 1'' @ [10])) @ py ''const y = 2;'' @ [10])
     = replicate n (py ''// const x = 1'' @ [10]) @ [py ''const y = 2;'' @ [10]]"
proof -
  have a: "10 \<notin> set (py ''// const x = 1'')" "10 \<notin> set (py ''const y = 2;'')"
    by (simp_all add: py_def)
  have "13 \<notin> set (concat (replicate n (py ''// const x = 1'' @ [10])) @ py ''const y = 2;'' @ [10])"
    by (auto simp: py_def)
  then show ?thesis unfolding readlines_def
    by (simp add: universal_newlines_id split_lines_replicate[OF a(1)]
        split_lines_line[OF a(2), of "[]", simplified])
qed

lemma counts_scenario:
  "length (non_empty (replicate n (py ''// const x = 1'' @ [10]) @ [py ''const y = 2;'' @ [10]])) = n + 1"
  "length (commented (replicate n (py ''// const x = 1'' @ [10]) @ [py ''const y = 2;'' @ [10]])) = n"
proof -
  have ne: "non_empty (replicate n (py ''// const x = 1'' @ [10]) @ [py ''const y = 2;'' @ [10]])
     = replicate n (py ''// const x = 1'' @ [10]) @ [py ''const y = 2;'' @ [10]]"
    unfolding non_empty_def by (simp add: scenario_lines)
  show "length (non_empty (replicate n (py ''// const x = 1'' @ [10]) @ [py ''const y = 2;'' @ [10]])) = n + 1"
    unfolding ne by simp
  show "length (commented (replicate n (py ''// const x = 1'' @ [10]) @ [py ''const y = 2;'' @ [10]])) = n"
    unfolding commented_def ne by (simp add: scenario_lines)
qed

lemma is_target_examples:
  "is_target (py ''a.ts'')" "is_target (py ''b.tsx'')" "is_target (py ''c.ts'')"
  "\<not> is_target (py ''d.js'')"
  by (simp_all add: is_target_def endswith_def py_def suffix_to_prefix)

lemma path_join_examples:
  "path_join (py ''src'') (py ''a.ts'') = py ''src/a.ts''"
  "path_join (py ''src'') (py ''b.tsx'') = py ''src/b.tsx''"
  "path_join (py ''src'') (py ''d.js'') = py ''src/d.js''"
  "path_join (py ''src/sub'') (py ''c.ts'') = py ''src/sub/c.ts''"
  by (simp_all add: path_join_def py_def startswith_def endswith_def suffix_to_prefix)

lemma qualifies_text_one_line:
  assumes "10 \<notin> set l" "13 \<notin> set l" "strip (l @ [10]) \<noteq> []"
  shows "qualifies_text (l @ [10]) \<longleftrightarrow> startswith (strip (l @ [10])) (py ''//'')"
  unfolding qualifies_text_def readlines_one[OF assms(1,2)]
  by (subst is_fully_commented_exact) (simp_all add: non_empty_def commented_def assms(3))

lemma qualifies_text_examples:
  "qualifies_text (py ''// x'' @ [10])" "\<not> qualifies_text (py ''y'' @ [10])"
  "qualifies_text (py ''//z'' @ [10])" "qualifies_text (py ''// // x'' @ [10])"
  "\<not> qualifies_text (py ''x'' @ [10])"
  by (subst qualifies_text_one_line; simp add: line_eval)+

lemma rewrite_text_examples:
  "rewrite_text (py ''// x'' @ [10]) = py ''x'' @ [10]"
  "rewrite_text (py ''//z'' @ [10]) = py ''z'' @ [10]"
  "rewrite_text (py ''// // x'' @ [10]) = py ''// x'' @ [10]"
  by (subst rewrite_text_one; simp add: line_eval)+

lemma example_run: "main example_walk example_files = Inr example_result"
proof -
  have u: "py ''Uncommenting: '' @ py ''src/a.ts'' = py ''Uncommenting: src/a.ts''"
    "py ''Uncommenting: '' @ py ''src/sub/c.ts'' = py ''Uncommenting: src/sub/c.ts''"
    "py ''Total files uncommented: '' @ str_nat 2 = py ''Total files uncommented: 2''"
    by (simp_all add: py_def str_nat.simps[of 2])
  have ne: "py ''src/a.ts'' \<noteq> py ''src/b.tsx''" "py ''src/a.ts'' \<noteq> py ''src/sub/c.ts''"
    "py ''src/b.tsx'' \<noteq> py ''src/sub/c.ts''" "py ''src/a.ts'' \<noteq> py ''src/d.js''"
    "py ''src/b.tsx'' \<noteq> py ''src/d.js''" "py ''src/d.js'' \<noteq> py ''src/sub/c.ts''"
    by (simp_all add: py_def)
  define s0 where "s0 = \<lparr>files = example_files, trace = [], count = 0\<rparr>"
  define s1 where "s1 = s0\<lparr>trace := trace s0 @ [OpenRead (py ''src/a.ts''),
                                 Print (py ''Uncommenting: src/a.ts''),
                                 OpenWrite (py ''src/a.ts'')],
            files := (files s0)(py ''src/a.ts'' \<mapsto> py ''x'' @ [10]),
            count := count s0 + 1\<rparr>"
  define s2 where "s2 = s1\<lparr>trace := trace s1 @ [OpenRead (py ''src/b.tsx'')]\<rparr>"
  define s3 where "s3 = s2\<lparr>trace := trace s2 @ [OpenRead (py ''src/sub/c.ts''),
                                 Print (py ''Uncommenting: src/sub/c.ts''),
                                 OpenWrite (py ''src/sub/c.ts'')],
            files := (files s2)(py ''src/sub/c.ts'' \<mapsto> py ''z'' @ [10]),
            count := count s2 + 1\<rparr>"
  have f0: "files s0 (path_join (py ''src'') (py ''a.ts'')) = Some (py ''// x'' @ [10])"
    unfolding path_join_examples s0_def example_files_def using ne by simp
  have f1: "files s1 (path_join (py ''src'') (py ''b.tsx'')) = Some (py ''y'' @ [10])"
    unfolding path_join_examples s1_def s0_def example_files_def using ne by simp
  have f2: "files s2 (path_join (py ''src/sub'') (py ''c.ts'')) = Some (py ''//z'' @ [10])"
    unfolding path_join_examples s2_def s1_def s0_def example_files_def using ne by simp
  have p1: "process_file (py ''src'') (py ''a.ts'') s0 = Inr s1"
    using process_file_rewrite[OF is_target_examples(1) f0 qualifies_text_examples(1)]
    unfolding path_join_examples rewrite_text_examples u s1_def .
  have p2: "process_file (py ''src'') (py ''b.tsx'') s1 = Inr s2"
    using process_file_skip[OF is_target_examples(2) f1 qualifies_text_examples(2)]
    unfolding path_join_examples s2_def .
  have p3: "process_file (py ''src'') (py ''d.js'') s2 = Inr s2"
    by (rule process_file_non_target[OF is_target_examples(4)])
  have p4: "process_file (py ''src/sub'') (py ''c.ts'') s2 = Inr s3"
    using process_file_rewrite[OF is_target_examples(3) f2 qualifies_text_examples(3)]
    unfolding path_join_examples rewrite_text_examples u s3_def .
  have w: "for_walk example_walk s0 = Inr s3"
    unfolding example_walk_def by (simp add: p1 p2 p3 p4)
  have r: "s3\<lparr>trace := trace s3 @ [Print (py ''Total files uncommented: '' @ str_nat (count s3))]\<rparr>
             = example_result"
    unfolding s3_def s2_def s1_def s0_def example_result_def
    by (simp add: py_def str_nat.simps[of "Suc (Suc 0)"])
  show ?thesis unfolding main_def s0_def[symmetric] w using r by simp
qed

lemma nested_paths:
  "is_target (py ''a.ts'')" "path_join (py ''src'') (py ''a.ts'') = py ''src/a.ts''"
  "py ''Uncommenting: '' @ py ''src/a.ts'' = py ''Uncommenting: src/a.ts''"
  by (simp_all add: is_target_examples path_join_examples) (simp add: py_def)

section \<open>The per-line transform: claims\<close>

text \<open>
  Claim C2. The transform makes three checks in order and the first that matches decides:
  when the stripped line starts with \<open>"// "\<close> the result is the line without its first
  occurrence of \<open>"// "\<close>; otherwise, when the stripped line starts with \<open>"//"\<close>, the
  result is the line without its first occurrence of \<open>"//"\<close>; otherwise the line comes
  back unchanged. "First occurrence" is a statement about the raw line: the line is
  \<open>pre @ old @ post\<close>, the result is \<open>pre @ post\<close>, and no occurrence of \<open>old\<close> starts
  before the removed one.
\<close>

theorem uncomment_line_first_match:
  "(startswith (strip line) (py ''// '') \<longrightarrow>
      first_occurrence_removed (py ''// '') line (uncomment_line line))
   \<and> (\<not> startswith (strip line) (py ''// '') \<and> startswith (strip line) (py ''//'') \<longrightarrow>
      first_occurrence_removed (py ''//'') line (uncomment_line line))
   \<and> (\<not> startswith (strip line) (py ''// '') \<and> \<not> startswith (strip line) (py ''//'') \<longrightarrow>
      uncomment_line line = line)"
proof (intro conjI impI)
  assume a: "startswith (strip line) (py ''// '')"
  from replace1_first[OF py_nonempty(1) strip_startswith_occurs[OF a]]
  show "first_occurrence_removed (py ''// '') line (uncomment_line line)"
    using a by (simp add: uncomment_line_def py_def)
next
  assume a: "\<not> startswith (strip line) (py ''// '') \<and> startswith (strip line) (py ''//'')"
  then have b: "startswith (strip line) (py ''//'')" by simp
  from replace1_first[OF py_nonempty(2) strip_startswith_occurs[OF b]]
  show "first_occurrence_removed (py ''//'') line (uncomment_line line)"
    using a by (simp add: uncomment_line_def py_def)
next
  assume "\<not> startswith (strip line) (py ''// '') \<and> \<not> startswith (strip line) (py ''//'')"
  then show "uncomment_line line = line" by (simp add: uncomment_line_def)
qed

theorem uncomment_line_first_match_witness:
  "startswith (strip (py ''  // a // b'')) (py ''// '')
   \<and> first_occurrence_removed (py ''// '') (py ''  // a // b'') (py ''  a // b'')
   \<and> \<not> startswith (strip (py ''//a//b'')) (py ''// '')
   \<and> startswith (strip (py ''//a//b'')) (py ''//'')
   \<and> first_occurrence_removed (py ''//'') (py ''//a//b'') (py ''a//b'')
   \<and> \<not> startswith (strip (py ''x = 1 // y'')) (py ''//'')
   \<and> uncomment_line (py ''x = 1 // y'') = py ''x = 1 // y''"
proof -
  have 1: "startswith (strip (py ''  // a // b'')) (py ''// '')" by (simp add: line_eval)
  have 2: "uncomment_line (py ''  // a // b'') = py ''  a // b''" by (simp add: line_eval)
  have 3: "\<not> startswith (strip (py ''//a//b'')) (py ''// '')" by (simp add: line_eval)
  have 4: "startswith (strip (py ''//a//b'')) (py ''//'')" by (simp add: line_eval)
  have 5: "uncomment_line (py ''//a//b'') = py ''a//b''" by (simp add: line_eval)
  have 6: "\<not> startswith (strip (py ''x = 1 // y'')) (py ''//'')" by (simp add: line_eval)
  have 7: "\<not> startswith (strip (py ''x = 1 // y'')) (py ''// '')" by (simp add: line_eval)
  show ?thesis
    using uncomment_line_first_match[of "py ''  // a // b''"]
      uncomment_line_first_match[of "py ''//a//b''"]
      uncomment_line_first_match[of "py ''x = 1 // y''"]
      1 2 3 4 5 6 7 by simp
qed

text \<open>
  Claim C7. A line made of leading whitespace, the marker, a space and a rest that is not
  blank, such as \<open>"  // foo"\<close>, has a stripped form that starts with \<open>"// "\<close>, and the
  transform returns the leading whitespace followed by the rest: \<open>"  foo"\<close>.
\<close>

theorem uncomment_line_indented_marker:
  "list_all isspace ws \<and> \<not> list_all isspace rest \<longrightarrow>
     startswith (strip (ws @ py ''// '' @ rest)) (py ''// '')
     \<and> uncomment_line (ws @ py ''// '' @ rest) = ws @ rest"
proof
  assume a: "list_all isspace ws \<and> \<not> list_all isspace rest"
  then have s: "strip (ws @ py ''// '' @ rest) = py ''// '' @ rstrip rest"
    by (simp add: strip_spaces_marker)
  have st: "startswith (strip (ws @ py ''// '' @ rest)) (py ''// '')"
    unfolding s startswith_def by simp
  have "\<not> isspace (hd (py ''// ''))" by (simp add: py_def isspace_def)
  with a have "replace1 (py ''// '') [] (ws @ py ''// '' @ rest) = ws @ rest"
    by (intro replace1_after_spaces py_nonempty) (simp_all add: list_all_iff)
  then show "startswith (strip (ws @ py ''// '' @ rest)) (py ''// '')
     \<and> uncomment_line (ws @ py ''// '' @ rest) = ws @ rest"
    using st by (simp add: uncomment_line_def py_def)
qed

theorem uncomment_line_indented_marker_witness:
  "list_all isspace (py ''  '') \<and> \<not> list_all isspace (py ''foo'')
   \<and> uncomment_line (py ''  // foo'') = py ''  foo''"
proof -
  have h: "list_all isspace (py ''  '') \<and> \<not> list_all isspace (py ''foo'')"
    by (simp add: py_def isspace_def)
  have e: "py ''  '' @ py ''// '' @ py ''foo'' = py ''  // foo''"
    "py ''  '' @ py ''foo'' = py ''  foo''"
    by (simp_all add: py_def)
  show ?thesis using uncomment_line_indented_marker[of "py ''  ''" "py ''foo''"] h
    unfolding e by simp
qed

text \<open>
  Claim C8. A line whose stripped form is empty (the empty line, or a line of whitespace
  only) is returned exactly as it came in.
\<close>

theorem uncomment_line_blank:
  "strip line = [] \<Longrightarrow> uncomment_line line = line"
  by (simp add: uncomment_line_def startswith_def py_def)

theorem uncomment_line_blank_witness:
  "strip [] = [] \<and> uncomment_line [] = []
   \<and> strip [32, 9, 32, 10] = [] \<and> uncomment_line [32, 9, 32, 10] = [32, 9, 32, 10]"
proof -
  have 1: "strip [] = []" by (simp add: line_eval)
  have 2: "strip [32, 9, 32, 10] = []" by (simp add: line_eval)
  show ?thesis using uncomment_line_blank[OF 1] uncomment_line_blank[OF 2] 1 2 by simp
qed

text \<open>
  Claim C10. The transformed line is never longer than the line: it is the line with some
  characters deleted and none inserted (a subsequence of the line), and at most the three
  characters of \<open>"// "\<close> are deleted.
\<close>

theorem uncomment_line_never_longer:
  "length (uncomment_line line) \<le> length line
   \<and> subseq (uncomment_line line) line
   \<and> length line \<le> length (uncomment_line line) + 3"
proof -
  have a: "length line \<le> length (replace1 (py ''// '') [] line) + 3"
    using replace1_at_most[of line "py ''// ''"] by (simp add: py_def)
  have b: "length line \<le> length (replace1 (py ''//'') [] line) + 3"
    using replace1_at_most[of line "py ''//''"] by (simp add: py_def)
  have "length line \<le> length (uncomment_line line) + 3"
    using a b by (simp add: uncomment_line_def py_def)
  moreover have "subseq (uncomment_line line) line"
    by (simp add: uncomment_line_def subseq_replace1 py_def)
  ultimately show ?thesis using uncomment_line_length[of line] by simp
qed

section \<open>The classifier and the rewrite: claims\<close>

text \<open>
  Claim C1. A file with a target extension is rewritten if and only if it has a non-empty
  line and the ratio of its commented lines to its non-empty lines is strictly greater
  than 0.95; otherwise it is only read. The ratio and the constant are the binary64
  numbers the script computes, \<open>len(commented) / len(non_empty)\<close> and \<open>0.95\<close>; for a
  file of fewer than \<open>2\<^sup>5\<^sup>2\<close> non-empty lines the comparison of the two is the
  comparison of the exact ratio with 95/100. With 19 commented lines out of 20 the
  ratio is not above 0.95, with 20 out of 21 it is. The instance that follows the
  theorem runs the loop body on two such files: the first is only read, the second is
  rewritten.
\<close>

theorem rewritten_iff_ratio:
  assumes "is_target file" and "files st (path_join r file) = Some content"
    and "lines = readlines content"
    and "c = length (commented lines)" and "n = length (non_empty lines)"
  shows "process_file r file st =
     (if n \<noteq> 0 \<and> literal_0_95 < nearest_binary64 (of_nat c / of_nat n)
      then Inr (st\<lparr>trace := trace st @ [OpenRead (path_join r file),
                                         Print (py ''Uncommenting: '' @ path_join r file),
                                         OpenWrite (path_join r file)],
                    files := (files st)(path_join r file \<mapsto> writelines (new_lines lines)),
                    count := count st + 1\<rparr>)
      else Inr (st\<lparr>trace := trace st @ [OpenRead (path_join r file)]\<rparr>))
   \<and> (n < 2 ^ 52 \<longrightarrow>
        (n \<noteq> 0 \<and> literal_0_95 < nearest_binary64 (of_nat c / of_nat n)
           \<longleftrightarrow> n \<noteq> 0 \<and> 95 / 100 < (of_nat c :: rat) / of_nat n))
   \<and> (n = 20 \<and> c = 19 \<longrightarrow> \<not> literal_0_95 < nearest_binary64 (of_nat c / of_nat n))
   \<and> (n = 21 \<and> c = 20 \<longrightarrow> literal_0_95 < nearest_binary64 (of_nat c / of_nat n))"
proof -
  define over where "over \<longleftrightarrow> n \<noteq> 0 \<and> literal_0_95 < nearest_binary64 (of_nat c / of_nat n)"
  have cn: "c \<le> n" unfolding assms(4,5) by (rule commented_le)
  have q: "qualifies_text content \<longleftrightarrow> over"
    unfolding qualifies_text_def assms(3)[symmetric] over_def assms(4,5)
    by (simp only: is_fully_commented_binary64 sum.inject simp_thms length_0_conv)
  have 1: "process_file r file st =
     (if over
      then Inr (st\<lparr>trace := trace st @ [OpenRead (path_join r file),
                                         Print (py ''Uncommenting: '' @ path_join r file),
                                         OpenWrite (path_join r file)],
                    files := (files st)(path_join r file \<mapsto> writelines (new_lines lines)),
                    count := count st + 1\<rparr>)
      else Inr (st\<lparr>trace := trace st @ [OpenRead (path_join r file)]\<rparr>))"
  proof (cases "qualifies_text content")
    case True
    from process_file_rewrite[OF assms(1,2) True] show ?thesis
      using True q by (simp add: rewrite_text_def assms(3))
  next
    case False
    from process_file_skip[OF assms(1,2) False] show ?thesis
      using False q by simp
  qed
  have ex: "literal_0_95 < nearest_binary64 (of_nat c / of_nat n) \<longleftrightarrow> 95 / 100 < (of_nat c :: rat) / of_nat n"
    if "n \<noteq> 0" "n < 2 ^ 52"
  proof -
    have pos: "0 < n" using that by simp
    show ?thesis
      unfolding nearest_binary64_gt_literal[OF pos that(2) cn] ratio_exact[OF pos] ..
  qed
  have 2: "n < 2 ^ 52 \<longrightarrow> (over \<longleftrightarrow> n \<noteq> 0 \<and> 95 / 100 < (of_nat c :: rat) / of_nat n)"
    unfolding over_def using ex by blast
  have 3: "n = 20 \<and> c = 19 \<longrightarrow> \<not> literal_0_95 < nearest_binary64 (of_nat c / of_nat n)"
  proof
    assume a: "n = 20 \<and> c = 19"
    then have "n \<noteq> 0" "n < 2 ^ 52" by simp_all
    from ex[OF this] a show "\<not> literal_0_95 < nearest_binary64 (of_nat c / of_nat n)" by simp
  qed
  have 4: "n = 21 \<and> c = 20 \<longrightarrow> literal_0_95 < nearest_binary64 (of_nat c / of_nat n)"
  proof
    assume a: "n = 21 \<and> c = 20"
    then have "n \<noteq> 0" "n < 2 ^ 52" by simp_all
    from ex[OF this] a show "literal_0_95 < nearest_binary64 (of_nat c / of_nat n)" by simp
  qed
  show ?thesis using 1 2 3 4 unfolding over_def by blast
qed


theorem rewritten_iff_ratio_witness:
  "process_file (py ''src'') (py ''a.ts'')
      \<lparr>files = [py ''src/a.ts'' \<mapsto> scenario_19_of_20], trace = [], count = 0\<rparr>
     = Inr \<lparr>files = [py ''src/a.ts'' \<mapsto> scenario_19_of_20],
            trace = [OpenRead (py ''src/a.ts'')], count = 0\<rparr>
   \<and> process_file (py ''src'') (py ''a.ts'')
      \<lparr>files = [py ''src/a.ts'' \<mapsto> scenario_20_of_21], trace = [], count = 0\<rparr>
     = Inr \<lparr>files = [py ''src/a.ts'' \<mapsto>
                       concat (replicate 20 (py ''const x = 1'' @ [10])) @ py ''const y = 2;'' @ [10]],
            trace = [OpenRead (py ''src/a.ts''), Print (py ''Uncommenting: src/a.ts''),
                     OpenWrite (py ''src/a.ts'')],
            count = 1\<rparr>"
proof -
  have t: "is_target (py ''a.ts'')" by (rule is_target_examples)
  have p: "path_join (py ''src'') (py ''a.ts'') = py ''src/a.ts''" by (rule path_join_examples)
  have u: "py ''Uncommenting: '' @ py ''src/a.ts'' = py ''Uncommenting: src/a.ts''"
    by (simp add: py_def)
  have r1: "replicate 19 (py ''// const x = 1'' @ [10]) @ [py ''const y = 2;'' @ [10]]
              = readlines scenario_19_of_20"
    unfolding scenario_19_of_20_def by (rule readlines_scenario[symmetric])
  have r2: "replicate 20 (py ''// const x = 1'' @ [10]) @ [py ''const y = 2;'' @ [10]]
              = readlines scenario_20_of_21"
    unfolding scenario_20_of_21_def by (rule readlines_scenario[symmetric])
  have c1: "19 = length (commented (replicate 19 (py ''// const x = 1'' @ [10]) @ [py ''const y = 2;'' @ [10]]))"
    and n1: "20 = length (non_empty (replicate 19 (py ''// const x = 1'' @ [10]) @ [py ''const y = 2;'' @ [10]]))"
    and c2: "20 = length (commented (replicate 20 (py ''// const x = 1'' @ [10]) @ [py ''const y = 2;'' @ [10]]))"
    and n2: "21 = length (non_empty (replicate 20 (py ''// const x = 1'' @ [10]) @ [py ''const y = 2;'' @ [10]]))"
    unfolding counts_scenario by simp_all
  have w: "writelines (new_lines (replicate 20 (py ''// const x = 1'' @ [10]) @ [py ''const y = 2;'' @ [10]]))
      = concat (replicate 20 (py ''const x = 1'' @ [10])) @ py ''const y = 2;'' @ [10]"
    unfolding writelines_def new_lines_def
    by (simp add: scenario_lines map_replicate)
  have A: "files \<lparr>files = [py ''src/a.ts'' \<mapsto> scenario_19_of_20], trace = [], count = 0\<rparr>
             (path_join (py ''src'') (py ''a.ts'')) = Some scenario_19_of_20"
    unfolding p by simp
  have B: "files \<lparr>files = [py ''src/a.ts'' \<mapsto> scenario_20_of_21], trace = [], count = 0\<rparr>
             (path_join (py ''src'') (py ''a.ts'')) = Some scenario_20_of_21"
    unfolding p by simp
  note T1 = rewritten_iff_ratio[OF t A r1 c1 n1, unfolded p w u]
  note T2 = rewritten_iff_ratio[OF t B r2 c2 n2, unfolded p w u]
  have no: "\<not> literal_0_95 < nearest_binary64 (of_nat 19 / of_nat 20)" using T1 by blast
  have yes: "literal_0_95 < nearest_binary64 (of_nat 20 / of_nat 21)" using T2 by blast
  have e1: "process_file (py ''src'') (py ''a.ts'')
      \<lparr>files = [py ''src/a.ts'' \<mapsto> scenario_19_of_20], trace = [], count = 0\<rparr>
     = Inr \<lparr>files = [py ''src/a.ts'' \<mapsto> scenario_19_of_20],
            trace = [OpenRead (py ''src/a.ts'')], count = 0\<rparr>"
    using conjunct1[OF T1] no by simp
  have e2: "process_file (py ''src'') (py ''a.ts'')
      \<lparr>files = [py ''src/a.ts'' \<mapsto> scenario_20_of_21], trace = [], count = 0\<rparr>
     = Inr \<lparr>files = [py ''src/a.ts'' \<mapsto>
                       concat (replicate 20 (py ''const x = 1'' @ [10])) @ py ''const y = 2;'' @ [10]],
            trace = [OpenRead (py ''src/a.ts''), Print (py ''Uncommenting: src/a.ts''),
                     OpenWrite (py ''src/a.ts'')],
            count = 1\<rparr>"
    using conjunct1[OF T2] yes by simp
  from e1 e2 show ?thesis by (rule conjI)
qed

text \<open>
  Claim C4. A file all of whose lines are blank (no line at all, or whitespace-only
  lines) has no non-empty line, so the classifier answers "not qualified" on its first
  test, before any division; the loop body then only reads the file, and its text and
  the counter stay as they were. \<open>truediv\<close> on a zero divisor would raise
  \<open>ZeroDivisionError\<close>, and the classifier never does, on any list of lines.
\<close>

theorem blank_file_never_rewritten:
  assumes "is_target file" and "files st (path_join r file) = Some content"
    and "blank (readlines content)"
  shows "non_empty (readlines content) = []
    \<and> is_fully_commented (readlines content) = Inr False
    \<and> process_file r file st = Inr (st\<lparr>trace := trace st @ [OpenRead (path_join r file)]\<rparr>)
    \<and> truediv c 0 = Inl ZeroDivisionError
    \<and> (\<forall>ls. is_fully_commented ls \<noteq> Inl ZeroDivisionError)"
proof -
  have ne: "non_empty (readlines content) = []" using assms(3) by (rule blank_non_empty)
  then have f: "is_fully_commented (readlines content) = Inr False"
    by (simp add: is_fully_commented_def)
  then have "\<not> qualifies_text content" by (simp add: qualifies_text_def)
  from process_file_skip[OF assms(1,2) this] ne f truediv_zero is_fully_commented_no_error
  show ?thesis by simp
qed

theorem blank_file_never_rewritten_witness:
  "blank (readlines []) \<and> blank (readlines [32, 32, 10, 9, 13, 10, 10])
   \<and> process_file (py ''src'') (py ''a.ts'')
        \<lparr>files = [py ''src/a.ts'' \<mapsto> []], trace = [], count = 0\<rparr>
      = Inr \<lparr>files = [py ''src/a.ts'' \<mapsto> []], trace = [OpenRead (py ''src/a.ts'')], count = 0\<rparr>
   \<and> process_file (py ''src'') (py ''a.ts'')
        \<lparr>files = [py ''src/a.ts'' \<mapsto> [32, 32, 10, 9, 13, 10, 10]], trace = [], count = 0\<rparr>
      = Inr \<lparr>files = [py ''src/a.ts'' \<mapsto> [32, 32, 10, 9, 13, 10, 10]],
             trace = [OpenRead (py ''src/a.ts'')], count = 0\<rparr>"
proof -
  have t: "is_target (py ''a.ts'')" by (simp add: is_target_def endswith_def py_def suffix_to_prefix)
  have p: "path_join (py ''src'') (py ''a.ts'') = py ''src/a.ts''"
    by (simp add: path_join_def py_def startswith_def endswith_def suffix_to_prefix)
  have b1: "blank (readlines [])" by (simp add: blank_def readlines_def)
  have b2: "blank (readlines [32, 32, 10, 9, 13, 10, 10])"
    by (simp add: blank_def readlines_def line_eval)
  have A: "files \<lparr>files = [py ''src/a.ts'' \<mapsto> []], trace = [], count = 0\<rparr>
             (path_join (py ''src'') (py ''a.ts'')) = Some []"
    unfolding p by simp
  have B: "files \<lparr>files = [py ''src/a.ts'' \<mapsto> [32, 32, 10, 9, 13, 10, 10]], trace = [], count = 0\<rparr>
             (path_join (py ''src'') (py ''a.ts'')) = Some [32, 32, 10, 9, 13, 10, 10]"
    unfolding p by simp
  show ?thesis
    using blank_file_never_rewritten[OF t A b1] blank_file_never_rewritten[OF t B b2] b1 b2
    unfolding p by simp
qed



section \<open>The walk: claims\<close>

text \<open>
  Claim C6. A file whose name does not end in \<open>.tsx\<close> or \<open>.ts\<close> is never opened,
  inspected or modified, whatever it contains: the loop body returns the state exactly
  as it received it, and after a whole run a path that belongs to no target file has
  its old text and was opened neither for reading nor for writing.
\<close>

theorem non_target_untouched:
  "(\<not> is_target file \<longrightarrow> process_file r file st = Inr st)
   \<and> (main walk fs = Inr st' \<and> (\<forall>e\<in>set (entries walk). path_of e = p \<longrightarrow> \<not> is_target (snd e))
        \<longrightarrow> files st' p = fs p \<and> OpenRead p \<notin> set (trace st') \<and> OpenWrite p \<notin> set (trace st'))"
proof -
  have step: "\<not> is_target file \<longrightarrow> process_file r file st = Inr st"
    by (simp add: process_file_non_target)
  have run: "files st' p = fs p \<and> OpenRead p \<notin> set (trace st') \<and> OpenWrite p \<notin> set (trace st')"
    if a: "main walk fs = Inr st' \<and> (\<forall>e\<in>set (entries walk). path_of e = p \<longrightarrow> \<not> is_target (snd e))"
  proof -
    from a obtain st0 where
      r: "for_entries (entries walk) \<lparr>files = fs, trace = [], count = 0\<rparr> = Inr st0"
      and s: "st' = st0\<lparr>trace := trace st0 @
                     [Print (py ''Total files uncommented: '' @ str_nat (count st0))]\<rparr>"
      using main_eq by blast
    from for_entries_frame[OF r] a
    have "files st0 p = fs p" "OpenRead p \<notin> set (trace st0)" "OpenWrite p \<notin> set (trace st0)"
      by auto
    then show ?thesis unfolding s by simp
  qed
  from step run show ?thesis by blast
qed

theorem non_target_untouched_witness:
  "\<not> is_target (py ''a.js'')
   \<and> process_file (py ''src'') (py ''a.js'')
        \<lparr>files = [py ''src/a.js'' \<mapsto> py ''// x''], trace = [], count = 0\<rparr>
      = Inr \<lparr>files = [py ''src/a.js'' \<mapsto> py ''// x''], trace = [], count = 0\<rparr>
   \<and> main [(py ''src'', [], [py ''a.js''])] [py ''src/a.js'' \<mapsto> py ''// x'']
      = Inr \<lparr>files = [py ''src/a.js'' \<mapsto> py ''// x''],
             trace = [Print (py ''Total files uncommented: 0'')], count = 0\<rparr>
   \<and> OpenRead (py ''src/a.js'') \<notin> set [Print (py ''Total files uncommented: 0'')]"
proof -
  have t: "\<not> is_target (py ''a.js'')"
    by (simp add: is_target_def endswith_def py_def suffix_to_prefix)
  have z: "py ''Total files uncommented: '' @ str_nat 0 = py ''Total files uncommented: 0''"
    by (simp add: str_nat.simps[of 0] py_def)
  have m: "main [(py ''src'', [], [py ''a.js''])] [py ''src/a.js'' \<mapsto> py ''// x'']
      = Inr \<lparr>files = [py ''src/a.js'' \<mapsto> py ''// x''],
             trace = [Print (py ''Total files uncommented: 0'')], count = 0\<rparr>"
    unfolding main_def by (simp add: process_file_non_target[OF t] z)
  have e: "\<forall>e\<in>set (entries [(py ''src'', [], [py ''a.js''])]).
             path_of e = py ''src/a.js'' \<longrightarrow> \<not> is_target (snd e)"
    by (simp add: entries_def t)
  show ?thesis
    using non_target_untouched[of "py ''a.js''" "py ''src''"
        "\<lparr>files = [py ''src/a.js'' \<mapsto> py ''// x''], trace = [], count = 0\<rparr>"
        "[(py ''src'', [], [py ''a.js''])]" "[py ''src/a.js'' \<mapsto> py ''// x'']"
        "\<lparr>files = [py ''src/a.js'' \<mapsto> py ''// x''],
             trace = [Print (py ''Total files uncommented: 0'')], count = 0\<rparr>" "py ''src/a.js''"]
      t m e by simp
qed

text \<open>
  Claim C5. In a run that ends normally over a walk that lists every path once, each
  qualifying file is opened for writing exactly once and gets the rewritten text, one
  line \<open>Uncommenting: <path>\<close> is printed for it, and the counter goes up by one for
  it: at the end the counter is the number of qualifying files and the number of files
  written. The run prints exactly one summary line, \<open>Total files uncommented: <count>\<close>,
  as its last output.
\<close>

theorem run_counts_rewritten_files:
  assumes "main walk fs = Inr st" and "distinct (target_paths (entries walk))"
  shows "count st = length (filter (qualifies fs) (entries walk))
    \<and> count st = length (filter is_write (trace st))
    \<and> filter is_summary (trace st) = [Print (py ''Total files uncommented: '' @ str_nat (count st))]
    \<and> last (trace st) = Print (py ''Total files uncommented: '' @ str_nat (count st))
    \<and> (\<forall>e\<in>set (entries walk). qualifies fs e \<longrightarrow>
          count_list (trace st) (OpenWrite (path_of e)) = 1
        \<and> count_list (trace st) (Print (py ''Uncommenting: '' @ path_of e)) = 1
        \<and> files st (path_of e) = map_option rewrite_text (fs (path_of e)))"
proof -
  define s0 where "s0 = \<lparr>files = fs, trace = [], count = 0\<rparr>"
  define summary where "summary st0 = Print (py ''Total files uncommented: '' @ str_nat (count st0))"
    for st0 :: state
  from assms(1) obtain st0 where
    r: "for_entries (entries walk) s0 = Inr st0" and s: "st = st0\<lparr>trace := trace st0 @ [summary st0]\<rparr>"
    unfolding s0_def summary_def by (rule main_eq)
  from for_entries_effect[OF r assms(2)] have
    c: "count st0 = length (filter (qualifies fs) (entries walk))" and
    t: "trace st0 = concat (map (file_events fs) (entries walk))" and
    f: "\<And>p. files st0 p =
            (if p \<in> path_of ` {e \<in> set (entries walk). qualifies fs e}
             then map_option rewrite_text (fs p) else fs p)"
    by (simp_all add: s0_def)
  have su: "is_summary (summary st0)"
    by (simp add: summary_def is_summary_def startswith_def)
  have nw: "\<not> is_write (summary st0)" by (simp add: summary_def is_write_def)
  have 1: "count st = length (filter (qualifies fs) (entries walk))" using c s by simp
  have 2: "count st = length (filter is_write (trace st))"
    using c s t nw by (simp add: write_events_total)
  have 3: "filter is_summary (trace st) = [summary st]"
    using s t su by (simp add: no_summary_events summary_def)
  have 4: "last (trace st) = summary st" using s by (simp add: summary_def)
  have 5: "count_list (trace st) (OpenWrite (path_of e)) = 1
        \<and> count_list (trace st) (Print (py ''Uncommenting: '' @ path_of e)) = 1
        \<and> files st (path_of e) = map_option rewrite_text (fs (path_of e))"
    if e: "e \<in> set (entries walk)" "qualifies fs e" for e
  proof -
    note u = unique_qualifying[OF assms(2) e]
    have ne: "summary st0 \<noteq> Print (py ''Uncommenting: '' @ path_of e)"
      by (simp add: summary_def py_def)
    have a: "count_list (trace st) (OpenWrite (path_of e)) = 1"
      using s t u by (simp add: count_write_events summary_def)
    have b: "count_list (trace st) (Print (py ''Uncommenting: '' @ path_of e)) = 1"
      using s t u ne by (simp add: count_print_events)
    have "path_of e \<in> path_of ` {e \<in> set (entries walk). qualifies fs e}" using e by blast
    then have "files st (path_of e) = map_option rewrite_text (fs (path_of e))"
      using f[of "path_of e"] s by simp
    with a b show ?thesis by simp
  qed
  show ?thesis using 1 2 3 4 5 unfolding summary_def by blast
qed


theorem run_counts_rewritten_files_witness:
  "main example_walk example_files = Inr example_result
   \<and> distinct (target_paths (entries example_walk))
   \<and> length (filter (qualifies example_files) (entries example_walk)) = 2
   \<and> count example_result = 2
   \<and> length (filter is_write (trace example_result)) = 2
   \<and> filter is_summary (trace example_result) = [Print (py ''Total files uncommented: 2'')]
   \<and> qualifies example_files (py ''src'', py ''a.ts'')
   \<and> count_list (trace example_result) (OpenWrite (py ''src/a.ts'')) = 1
   \<and> count_list (trace example_result) (Print (py ''Uncommenting: src/a.ts'')) = 1
   \<and> files example_result (py ''src/a.ts'') = Some (py ''x'' @ [10])"
proof -
  have d: "distinct (target_paths (entries example_walk))"
    by (simp add: target_paths_def entries_def example_walk_def is_target_examples path_of_def
        path_join_examples) (simp add: py_def)
  have m: "(py ''src'', py ''a.ts'') \<in> set (entries example_walk)"
    by (simp add: entries_def example_walk_def)
  have fa: "example_files (py ''src/a.ts'') = Some (py ''// x'' @ [10])"
    unfolding example_files_def by (simp add: py_def)
  have q: "qualifies example_files (py ''src'', py ''a.ts'')"
    by (simp add: qualifies_def is_target_examples path_of_def path_join_examples fa
        qualifies_text_examples)
  have c: "count example_result = 2" by (simp add: example_result_def)
  have u: "py ''Uncommenting: '' @ py ''src/a.ts'' = py ''Uncommenting: src/a.ts''"
    "py ''Total files uncommented: '' @ str_nat 2 = py ''Total files uncommented: 2''"
    by (simp_all add: py_def str_nat.simps[of 2])
  have pa: "path_of (py ''src'', py ''a.ts'') = py ''src/a.ts''"
    by (simp add: path_of_def path_join_examples)
  from run_counts_rewritten_files[OF example_run d] m q
  have "length (filter (qualifies example_files) (entries example_walk)) = 2
    \<and> length (filter is_write (trace example_result)) = 2
    \<and> filter is_summary (trace example_result) = [Print (py ''Total files uncommented: 2'')]
    \<and> count_list (trace example_result) (OpenWrite (py ''src/a.ts'')) = 1
    \<and> count_list (trace example_result) (Print (py ''Uncommenting: src/a.ts'')) = 1
    \<and> files example_result (py ''src/a.ts'') = Some (py ''x'' @ [10])"
    unfolding c u by (auto simp: pa u fa rewrite_text_examples)
  then show ?thesis using example_run d q c by simp
qed

text \<open>
  Claim C3, as the code has it. For a qualifying file the loop body, applied a second
  time, leaves the text produced by the first pass unchanged if and only if that text
  no longer qualifies; this is so in particular when no line of the rewritten text
  still starts with the marker once stripped. It is not so for every qualifying file:
  a file whose lines carry the marker twice (\<open>"// // x"\<close>) still qualifies after one
  pass, and the second pass removes one more marker.
\<close>

theorem second_pass_noop_iff:
  assumes "is_target file" and "files st (path_join r file) = Some content"
    and "qualifies_text content"
  shows "\<exists>st1 st2. process_file r file st = Inr st1 \<and> process_file r file st1 = Inr st2
           \<and> files st1 (path_join r file) = Some (rewrite_text content)
           \<and> (files st2 = files st1 \<longleftrightarrow> \<not> qualifies_text (rewrite_text content))
           \<and> ((\<forall>l\<in>set (readlines (rewrite_text content)). \<not> startswith (strip l) (py ''//''))
                \<longrightarrow> files st2 = files st1)"
proof -
  define p where "p = path_join r file"
  define st1 where "st1 = st\<lparr>trace := trace st @ [OpenRead p, Print (py ''Uncommenting: '' @ p),
                                 OpenWrite p],
            files := (files st)(p \<mapsto> rewrite_text content),
            count := count st + 1\<rparr>"
  have s1: "process_file r file st = Inr st1"
    using process_file_rewrite[OF assms] unfolding st1_def p_def .
  have f1: "files st1 (path_join r file) = Some (rewrite_text content)"
    by (simp add: st1_def p_def)
  have plain: "\<not> qualifies_text (rewrite_text content)"
    if "\<forall>l\<in>set (readlines (rewrite_text content)). \<not> startswith (strip l) (py ''//'')"
  proof
    assume "qualifies_text (rewrite_text content)"
    then have "commented (readlines (rewrite_text content)) \<noteq> []"
      unfolding qualifies_text_def by (rule qualifies_has_commented)
    with that show False by (auto simp: commented_def non_empty_def filter_empty_conv)
  qed
  show ?thesis
  proof (cases "qualifies_text (rewrite_text content)")
    case True
    define st2 where "st2 = st1\<lparr>trace := trace st1 @ [OpenRead p, Print (py ''Uncommenting: '' @ p),
                                 OpenWrite p],
            files := (files st1)(p \<mapsto> rewrite_text (rewrite_text content)),
            count := count st1 + 1\<rparr>"
    have s2: "process_file r file st1 = Inr st2"
      using process_file_rewrite[OF assms(1) f1 True] unfolding st2_def p_def .
    have "rewrite_text (rewrite_text content) \<noteq> rewrite_text content"
      using rewrite_text_shorter[OF True] by auto
    then have "files st2 p \<noteq> files st1 p" by (simp add: st2_def st1_def)
    then have "files st2 \<noteq> files st1" by auto
    with s1 s2 f1 True plain show ?thesis by blast
  next
    case False
    define st2 where "st2 = st1\<lparr>trace := trace st1 @ [OpenRead p]\<rparr>"
    have s2: "process_file r file st1 = Inr st2"
      using process_file_skip[OF assms(1) f1 False] unfolding st2_def p_def .
    have "files st2 = files st1" by (simp add: st2_def)
    with s1 s2 f1 False show ?thesis by blast
  qed
qed

theorem second_pass_noop_iff_witness:
  "is_target (py ''a.ts'')
   \<and> qualifies_text (py ''// x'' @ [10])
   \<and> readlines (rewrite_text (py ''// x'' @ [10])) = [py ''x'' @ [10]]
   \<and> \<not> startswith (strip (py ''x'' @ [10])) (py ''//'')
   \<and> \<not> qualifies_text (rewrite_text (py ''// x'' @ [10]))
   \<and> (\<exists>st1 st2.
         process_file (py ''src'') (py ''a.ts'')
           \<lparr>files = [py ''src/a.ts'' \<mapsto> py ''// x'' @ [10]], trace = [], count = 0\<rparr> = Inr st1
       \<and> process_file (py ''src'') (py ''a.ts'') st1 = Inr st2
       \<and> files st1 (py ''src/a.ts'') = Some (py ''x'' @ [10])
       \<and> files st2 = files st1)"
proof -
  have f: "files \<lparr>files = [py ''src/a.ts'' \<mapsto> py ''// x'' @ [10]], trace = [], count = 0\<rparr>
             (path_join (py ''src'') (py ''a.ts'')) = Some (py ''// x'' @ [10])"
    unfolding nested_paths by simp
  have rl: "readlines (py ''x'' @ [10]) = [py ''x'' @ [10]]"
    by (rule readlines_one) (simp_all add: py_def)
  have nl: "\<forall>l\<in>set (readlines (rewrite_text (py ''// x'' @ [10]))). \<not> startswith (strip l) (py ''//'')"
    unfolding rewrite_text_examples rl by (simp add: line_eval)
  have nq: "\<not> qualifies_text (rewrite_text (py ''// x'' @ [10]))"
    unfolding rewrite_text_examples by (rule qualifies_text_examples)
  have ns: "\<not> startswith (strip (py ''x'' @ [10])) (py ''//'')" by (simp add: line_eval)
  from second_pass_noop_iff[OF nested_paths(1) f qualifies_text_examples(1)] nl
  show ?thesis
    unfolding nested_paths rewrite_text_examples
    using nested_paths(1) qualifies_text_examples(1) nq[unfolded rewrite_text_examples] rl ns
    by blast
qed

text \<open>
  The file with the marker twice on its line: it qualifies, one pass leaves \<open>"// x"\<close>,
  which qualifies again, and a second pass leaves \<open>"x"\<close>.
\<close>

theorem second_pass_changes_nested_markers:
  "is_target (py ''a.ts'')
   \<and> files nested_start (path_join (py ''src'') (py ''a.ts'')) = Some (py ''// // x'' @ [10])
   \<and> qualifies_text (py ''// // x'' @ [10])
   \<and> process_file (py ''src'') (py ''a.ts'') nested_start = Inr nested_once
   \<and> process_file (py ''src'') (py ''a.ts'') nested_once = Inr nested_twice
   \<and> files nested_once (py ''src/a.ts'') = Some (py ''// x'' @ [10])
   \<and> files nested_twice (py ''src/a.ts'') = Some (py ''x'' @ [10])
   \<and> files nested_twice (py ''src/a.ts'') \<noteq> files nested_once (py ''src/a.ts'')"
proof -
  have f0: "files nested_start (path_join (py ''src'') (py ''a.ts'')) = Some (py ''// // x'' @ [10])"
    unfolding nested_paths nested_start_def by simp
  have f1: "files nested_once (path_join (py ''src'') (py ''a.ts'')) = Some (py ''// x'' @ [10])"
    unfolding nested_paths nested_once_def by simp
  have p1: "process_file (py ''src'') (py ''a.ts'') nested_start = Inr nested_once"
    using process_file_rewrite[OF nested_paths(1) f0 qualifies_text_examples(4)]
    unfolding nested_paths rewrite_text_examples
    by (simp add: nested_start_def nested_once_def)
  have p2: "process_file (py ''src'') (py ''a.ts'') nested_once = Inr nested_twice"
    using process_file_rewrite[OF nested_paths(1) f1 qualifies_text_examples(1)]
    unfolding nested_paths rewrite_text_examples
    by (simp add: nested_once_def nested_twice_def)
  have d: "files nested_twice (py ''src/a.ts'') \<noteq> files nested_once (py ''src/a.ts'')"
    by (simp add: nested_once_def nested_twice_def py_def)
  show ?thesis using nested_paths(1) f0 qualifies_text_examples(4) p1 p2 d
    by (simp add: nested_once_def nested_twice_def)
qed

end
